theory Spec2Isabelle
  imports Main "HOL-Library.Word" "HOL-Library.List_Lexorder" "HOL-Library.Monad_Syntax"
begin

section \<open>Wide characters and wide strings\<close>

text \<open>
  The launcher is built for Windows, where \<^verbatim>\<open>wchar_t\<close> is a 16-bit code unit.
  A \<^verbatim>\<open>std::wstring\<close> and the contents of a NUL-terminated \<^verbatim>\<open>const wchar_t*\<close>
  (the code units before the terminator) are lists of code units.  \<open>L\<close> plays the part
  of the \<^verbatim>\<open>L"..."\<close> literal prefix for ASCII text.
\<close>

type_synonym wchar_t = "16 word"
type_synonym wstring = "wchar_t list"

definition L :: "string \<Rightarrow> wstring" where
  "L s = map of_char s"

abbreviation kQuote :: wchar_t where "kQuote \<equiv> 0x22"
abbreviation kBackslash :: wchar_t where "kBackslash \<equiv> 0x5C"
abbreviation kSpace :: wchar_t where "kSpace \<equiv> 0x20"
abbreviation kCaret :: wchar_t where "kCaret \<equiv> 0x5E"
abbreviation kSlash :: wchar_t where "kSlash \<equiv> 0x2F"
abbreviation kColon :: wchar_t where "kColon \<equiv> 0x3A"
abbreviation kNewline :: wchar_t where "kNewline \<equiv> 0x0A"
abbreviation kTab :: wchar_t where "kTab \<equiv> 0x09"

text \<open>\<^verbatim>\<open>std::wcslen\<close>: the number of code units before the terminator.\<close>

definition wcslen :: "wstring \<Rightarrow> nat" where
  "wcslen s = length s"

text \<open>
  \<^verbatim>\<open>std::wcspbrk(s, set)\<close>: the position of the first code unit of \<open>s\<close> that occurs in
  \<open>set\<close>; \<open>None\<close> stands for the null pointer.
\<close>

fun wcspbrk :: "wstring \<Rightarrow> wstring \<Rightarrow> nat option" where
  "wcspbrk [] cs = None"
| "wcspbrk (c # s) cs = (if c \<in> set cs then Some 0 else map_option Suc (wcspbrk s cs))"

section \<open>EscapeArgWin32\<close>

text \<open>
  The loop of \<^verbatim>\<open>EscapeArgWin32\<close> (Phutil.cpp, lines 36-65).  Iterators into \<open>arg\<close> are
  positions: \<open>it\<close> runs from 0 to \<open>length arg\<close>, \<open>span_begin\<close> is the start of the span
  not yet copied to \<open>result\<close>, and \<^verbatim>\<open>result.append(span_begin, it)\<close> appends the code
  units at positions \<open>span_begin \<le> k < it\<close>.  The counter is an \<^verbatim>\<open>int\<close> in the source; it
  never exceeds the length of the argument, and is a natural number here.  When the loop
  is left, the last three statements of the function run: the open span, the counted
  backslashes once more, the closing quote.
\<close>

function EscapeArgWin32_loop :: "wstring \<Rightarrow> nat \<Rightarrow> nat \<Rightarrow> nat \<Rightarrow> wstring \<Rightarrow> wstring" where
  "EscapeArgWin32_loop arg it span_begin consecutive_backslash_count result =
     (if it < length arg then
        (if arg ! it = kBackslash then
           EscapeArgWin32_loop arg (Suc it) span_begin (consecutive_backslash_count + 1) result
         else if arg ! it = kQuote then
           EscapeArgWin32_loop arg (Suc it) it 0
             (result @ take (it - span_begin) (drop span_begin arg)
                     @ replicate (consecutive_backslash_count + 1) kBackslash)
         else
           EscapeArgWin32_loop arg (Suc it) span_begin 0 result)
      else
        result @ drop span_begin arg
               @ replicate consecutive_backslash_count kBackslash
               @ [kQuote])"
  by pat_completeness auto
termination
  by (relation "measure (\<lambda>(arg, it, _). length arg - it)") auto

declare EscapeArgWin32_loop.simps [simp del]

definition EscapeArgWin32 :: "wstring \<Rightarrow> wstring" where
  "EscapeArgWin32 arg = EscapeArgWin32_loop arg 0 0 0 [kQuote]"

section \<open>EncodeCommandLineWin32\<close>

text \<open>
  The escape set of the native encoder: space and double quote (special to
  \<^verbatim>\<open>CommandLineToArgvW\<close>), and \<^verbatim>\<open>~ @ ? * [\<close> (special to Cygwin-built binaries).
\<close>

definition kEscapeSet_Win32 :: wstring where
  "kEscapeSet_Win32 = L '' \"~@?*[''"

text \<open>
  The loop over \<open>i = 0 ..< nargs\<close> (Phutil.cpp, lines 81-91).  The source is handed
  \<open>nargs\<close> and the array separately; every caller passes the number of entries.
\<close>

function EncodeCommandLineWin32_loop :: "nat \<Rightarrow> wstring list \<Rightarrow> nat \<Rightarrow> wstring \<Rightarrow> wstring" where
  "EncodeCommandLineWin32_loop nargs args i result =
     (if i < nargs then
        (let result1 = (if i \<noteq> 0 then result @ [kSpace] else result);
             result2 =
               (if wcslen (args ! i) \<noteq> 0 \<and> wcspbrk (args ! i) kEscapeSet_Win32 = None
                then result1 @ args ! i
                else result1 @ EscapeArgWin32 (args ! i))
         in EncodeCommandLineWin32_loop nargs args (Suc i) result2)
      else result)"
  by pat_completeness auto
termination
  by (relation "measure (\<lambda>(nargs, _, i, _). nargs - i)") auto

declare EncodeCommandLineWin32_loop.simps [simp del]

definition EncodeCommandLineWin32 :: "nat \<Rightarrow> wstring list \<Rightarrow> wstring" where
  "EncodeCommandLineWin32 nargs args = EncodeCommandLineWin32_loop nargs args 0 []"

section \<open>EncodeCommandLineCmd\<close>

text \<open>The escape set of the shell encoder holds space and double quote only.\<close>

definition kEscapeSet_Cmd :: wstring where
  "kEscapeSet_Cmd = L '' \"''"

text \<open>The \<^verbatim>\<open>switch\<close> of the lambda \<^verbatim>\<open>isCmdMetachar\<close>.\<close>

definition isCmdMetachar :: "wchar_t \<Rightarrow> bool" where
  "isCmdMetachar ch \<longleftrightarrow> ch \<in> set (L ''()%!^\"<>&|'')"

text \<open>
  The two range-for loops over the code units of \<open>arg\<close>: a caret is pushed before every
  code unit that satisfies \<open>p\<close>, then the code unit itself.
\<close>

fun push_caret_escaped :: "(wchar_t \<Rightarrow> bool) \<Rightarrow> wstring \<Rightarrow> wstring \<Rightarrow> wstring" where
  "push_caret_escaped p [] result = result"
| "push_caret_escaped p (ch # arg) result =
     push_caret_escaped p arg ((if p ch then result @ [kCaret] else result) @ [ch])"

function EncodeCommandLineCmd_loop :: "nat \<Rightarrow> wstring list \<Rightarrow> nat \<Rightarrow> wstring \<Rightarrow> wstring" where
  "EncodeCommandLineCmd_loop nargs args i result =
     (if i < nargs then
        (let result1 = result @ [kSpace];
             arg =
               (if wcslen (args ! i) \<noteq> 0 \<and> wcspbrk (args ! i) kEscapeSet_Cmd = None
                then args ! i
                else EscapeArgWin32 (args ! i));
             result2 =
               (if i = 0
                then push_caret_escaped (\<lambda>ch. isCmdMetachar ch \<or> ch = kSpace) arg result1
                else push_caret_escaped isCmdMetachar arg result1)
         in EncodeCommandLineCmd_loop nargs args (Suc i) result2)
      else result)"
  by pat_completeness auto
termination
  by (relation "measure (\<lambda>(nargs, _, i, _). nargs - i)") auto

declare EncodeCommandLineCmd_loop.simps [simp del]

definition EncodeCommandLineCmd :: "nat \<Rightarrow> wstring list \<Rightarrow> wstring" where
  "EncodeCommandLineCmd nargs args =
     EncodeCommandLineCmd_loop nargs args 0 (L ''cmd.exe /D /C'')"

section \<open>IsCmdBuiltin\<close>

definition kCmdBuiltins :: "wstring list" where
  "kCmdBuiltins = map L
     [''assoc'',    ''break'',    ''call'',  ''cd'',     ''chdir'',  ''cls'',
      ''color'',    ''copy'',     ''date'',  ''del'',    ''dir'',    ''dpath'',
      ''echo'',     ''endlocal'', ''erase'', ''exit'',   ''for'',    ''ftype'',
      ''goto'',     ''if'',       ''keys'',  ''md'',     ''mkdir'',  ''mklink'',
      ''move'',     ''path'',     ''pause'', ''popd'',   ''prompt'', ''pushd'',
      ''rd'',       ''rem'',      ''ren'',   ''rename'', ''rmdir'',  ''set'',
      ''setlocal'', ''shift'',    ''start'', ''time'',   ''title'',  ''type'',
      ''ver'',      ''verify'',   ''vol'']"

text \<open>
  \<^verbatim>\<open>_wcsicmp\<close> of the C runtime.  The launcher never calls \<^verbatim>\<open>setlocale\<close>, so the
  comparison runs in the "C" locale, where only the letters \<^verbatim>\<open>A\<close> to \<^verbatim>\<open>Z\<close> are
  folded to lower case.  It walks both strings, folding each code unit, up to the first
  difference or the terminator, and returns the difference of the two folded code units;
  the end of a list is the terminator, code unit 0.
\<close>

definition towlower :: "wchar_t \<Rightarrow> wchar_t" where
  "towlower c = (if 0x41 \<le> c \<and> c \<le> 0x5A then c + 0x20 else c)"

fun wcsicmp :: "wstring \<Rightarrow> wstring \<Rightarrow> int" where
  "wcsicmp [] [] = 0"
| "wcsicmp [] (b # bs) = 0 - uint (towlower b)"
| "wcsicmp (a # as) [] = uint (towlower a) - 0"
| "wcsicmp (a # as) (b # bs) =
     (if towlower a = towlower b then wcsicmp as bs
      else uint (towlower a) - uint (towlower b))"

text \<open>
  \<^verbatim>\<open>std::lower_bound\<close> and \<^verbatim>\<open>std::binary_search\<close> of the standard library, over the
  range that starts at position \<open>first\<close> and holds \<open>count\<close> elements: halve the range
  while it is not empty; \<^verbatim>\<open>binary_search\<close> then tests that the bound is not the end and
  that the value is not below the element found.
\<close>

function lower_bound :: "('a \<Rightarrow> 'a \<Rightarrow> bool) \<Rightarrow> 'a list \<Rightarrow> nat \<Rightarrow> nat \<Rightarrow> 'a \<Rightarrow> nat" where
  "lower_bound cmp xs first count v =
     (if 0 < count then
        (let step = count div 2; it = first + step in
         if cmp (xs ! it) v
         then lower_bound cmp xs (Suc it) (count - (step + 1)) v
         else lower_bound cmp xs first step v)
      else first)"
  by pat_completeness auto
termination
  by (relation "measure (\<lambda>(_, _, _, count, _). count)") auto

declare lower_bound.simps [simp del]

definition binary_search :: "('a \<Rightarrow> 'a \<Rightarrow> bool) \<Rightarrow> 'a list \<Rightarrow> 'a \<Rightarrow> bool" where
  "binary_search cmp xs v =
     (let first = lower_bound cmp xs 0 (length xs) v
      in first \<noteq> length xs \<and> \<not> cmp v (xs ! first))"

definition IsCmdBuiltin :: "wstring \<Rightarrow> bool" where
  "IsCmdBuiltin candidate =
     binary_search (\<lambda>a b. wcsicmp a b < 0) kCmdBuiltins candidate"

section \<open>CallProcess\<close>

text \<open>
  \<^verbatim>\<open>CallProcess\<close> talks to the operating system.  The answers of the system calls are
  the fields of \<open>os\<close>; what the function does is the record \<open>run\<close>: the text written to
  \<^verbatim>\<open>std::wcerr\<close>, the system calls made, in order, and how the function ends, by
  returning a value to its caller or by \<^verbatim>\<open>std::exit\<close>.
\<close>

record os =
  job_created :: bool  \<comment> \<open>\<^verbatim>\<open>CreateJobObject\<close> returned a handle\<close>
  query_ok :: bool  \<comment> \<open>result of \<^verbatim>\<open>QueryInformationJobObject\<close>\<close>
  query_len :: nat  \<comment> \<open>the length it stored in \<^verbatim>\<open>len\<close>\<close>
  sizeof_info :: nat  \<comment> \<open>\<^verbatim>\<open>sizeof(info)\<close> on the platform\<close>
  set_ok :: bool  \<comment> \<open>result of \<^verbatim>\<open>SetInformationJobObject\<close>\<close>
  ctrl_handler_ok :: bool  \<comment> \<open>result of \<^verbatim>\<open>SetConsoleCtrlHandler\<close>\<close>
  create_process_ok :: bool  \<comment> \<open>result of \<^verbatim>\<open>CreateProcessW\<close>\<close>
  last_error :: "32 word"  \<comment> \<open>\<^verbatim>\<open>GetLastError()\<close> after a failed spawn\<close>
  exit_code_ok :: bool  \<comment> \<open>result of \<^verbatim>\<open>GetExitCodeProcess\<close>\<close>
  exit_code :: "32 word"  \<comment> \<open>the \<^verbatim>\<open>DWORD rc\<close> it stored\<close>

datatype os_call =
    CreateJobObject
  | QueryInformationJobObject
  | SetInformationJobObject
  | GetStdHandle
  | SetConsoleCtrlHandler
  | CreateProcessW wstring
  | GetLastError
  | AssignProcessToJobObject
  | CloseHandle
  | WaitForSingleObjectEx
  | GetExitCodeProcess

datatype ending = Returned int | Exited int

record run =
  wcerr :: wstring
  calls :: "os_call list"
  ending :: ending

abbreviation ERROR_FILE_NOT_FOUND :: "32 word" where "ERROR_FILE_NOT_FOUND \<equiv> 2"

text \<open>\<^verbatim>\<open>Die\<close>: the marker, the message, \<^verbatim>\<open>std::endl\<close>, then \<^verbatim>\<open>std::exit(1)\<close>.\<close>

definition Die :: "wstring \<Rightarrow> os_call list \<Rightarrow> run" where
  "Die msg cs = \<lparr>wcerr = L ''FATAL: '' @ msg @ [kNewline], calls = cs, ending = Exited 1\<rparr>"

text \<open>The initializer of the local \<^verbatim>\<open>cmd\<close> (Phutil.cpp, lines 158-159).\<close>

definition CallProcess_cmd :: "nat \<Rightarrow> wstring list \<Rightarrow> wstring" where
  "CallProcess_cmd argc argv =
     (if IsCmdBuiltin (argv ! 0) then EncodeCommandLineCmd argc argv
      else EncodeCommandLineWin32 argc argv)"

definition CallProcess :: "os \<Rightarrow> nat \<Rightarrow> wstring list \<Rightarrow> run" where
  "CallProcess sys argc argv =
     (if argc = 0 then Die (L ''No arguments specified'') []
      else
        let cmd = CallProcess_cmd argc argv;
            cs1 = [CreateJobObject, QueryInformationJobObject]
        in
        if \<not> query_ok sys \<or> query_len sys \<noteq> sizeof_info sys \<or> \<not> job_created sys then
          Die (L ''Job information querying failed'') cs1
        else
          let cs2 = cs1 @ [SetInformationJobObject] in
          if \<not> set_ok sys then Die (L ''Job information setting failed'') cs2
          else
            let cs3 = cs2 @ [GetStdHandle, GetStdHandle, GetStdHandle, SetConsoleCtrlHandler] in
            if \<not> ctrl_handler_ok sys then Die (L ''control handler setting failed'') cs3
            else
              let cs4 = cs3 @ [CreateProcessW cmd] in
              if \<not> create_process_ok sys then
                (if last_error sys = ERROR_FILE_NOT_FOUND then
                   \<lparr>wcerr = argv ! 0 @ L '': not found'' @ [kNewline],
                    calls = cs4 @ [GetLastError], ending = Returned 127\<rparr>
                 else Die (L ''Unable to create process'') (cs4 @ [GetLastError]))
              else
                let cs5 = cs4 @ [AssignProcessToJobObject, CloseHandle,
                                 WaitForSingleObjectEx, GetExitCodeProcess] in
                if \<not> exit_code_ok sys then
                  Die (L ''Failed to get exit code of process'') cs5
                else \<lparr>wcerr = [], calls = cs5, ending = Returned (sint (exit_code sys))\<rparr>)"

section \<open>SplitDrive and SplitPath\<close>

text \<open>
  The \<^verbatim>\<open>std::wstring\<close> members the two functions use.  \<^verbatim>\<open>substr\<close> and \<^verbatim>\<open>erase\<close>
  throw \<^verbatim>\<open>std::out_of_range\<close> when the position lies beyond the size: the value
  \<open>None\<close>.  \<^verbatim>\<open>find\<close> and \<^verbatim>\<open>find_last_not_of\<close> return \<^verbatim>\<open>npos\<close> when nothing is
  found: \<open>None\<close> as well.  \<^verbatim>\<open>find\<close> is only called with the one-character needle
  \<^verbatim>\<open>L"\\"\<close>, so the needle is a code unit here.
\<close>

definition substr :: "wstring \<Rightarrow> nat \<Rightarrow> nat \<Rightarrow> wstring option" where
  "substr s pos n = (if pos > length s then None else Some (take n (drop pos s)))"

definition substr_from :: "wstring \<Rightarrow> nat \<Rightarrow> wstring option" where
  "substr_from s pos = (if pos > length s then None else Some (drop pos s))"

definition erase_from :: "wstring \<Rightarrow> nat \<Rightarrow> wstring option" where
  "erase_from s pos = (if pos > length s then None else Some (take pos s))"

definition wfind :: "wstring \<Rightarrow> wchar_t \<Rightarrow> nat \<Rightarrow> nat option" where
  "wfind s c pos = List.find (\<lambda>k. s ! k = c) [pos ..< length s]"

definition find_last_not_of :: "wstring \<Rightarrow> wstring \<Rightarrow> nat option" where
  "find_last_not_of s cs = List.find (\<lambda>k. s ! k \<notin> set cs) (rev [0 ..< length s])"

definition SplitDrive :: "wstring \<Rightarrow> (wstring \<times> wstring) option" where
  "SplitDrive path =
     (if length path \<ge> 2 then
        (let normp = map (\<lambda>ch. if ch = kSlash then kBackslash else ch) path in
         do {
           p2 \<leftarrow> substr normp 0 2;
           unc \<leftarrow> (if p2 = [kBackslash, kBackslash]
                  then do { p3 \<leftarrow> substr normp 2 1; Some (p3 \<noteq> [kBackslash]) }
                  else Some False);
           if unc then
             (case wfind normp kBackslash 2 of
                None \<Rightarrow> Some ([], path)
              | Some index \<Rightarrow>
                  (let index2 = wfind normp kBackslash (index + 1) in
                   if index2 = Some (index + 1) then Some ([], path)
                   else
                     (let index2 = (case index2 of None \<Rightarrow> length path | Some k \<Rightarrow> k) in
                      do {
                        d \<leftarrow> substr path 0 index2;
                        p \<leftarrow> substr_from path index2;
                        Some (d, p)
                      })))
           else if normp ! 1 = kColon then
             do {
               d \<leftarrow> substr path 0 2;
               p \<leftarrow> substr_from path 2;
               Some (d, p)
             }
           else Some ([], path)
         })
      else Some ([], path))"

text \<open>
  The \<^verbatim>\<open>while\<close> loop of \<^verbatim>\<open>SplitPath\<close>: \<open>i\<close> steps down while it is not 0 and the code
  unit before it is neither separator.
\<close>

abbreviation sep :: wchar_t where "sep \<equiv> kBackslash"
abbreviation altsep :: wchar_t where "altsep \<equiv> kSlash"

fun SplitPath_loop :: "wstring \<Rightarrow> nat \<Rightarrow> nat" where
  "SplitPath_loop p 0 = 0"
| "SplitPath_loop p (Suc k) =
     (if p ! k \<noteq> sep \<and> p ! k \<noteq> altsep then SplitPath_loop p k else Suc k)"

definition SplitPath :: "wstring \<Rightarrow> (wstring \<times> wstring) option" where
  "SplitPath path =
     do {
       (d, p) \<leftarrow> SplitDrive path;
       let i = SplitPath_loop p (length p);
       head \<leftarrow> substr p 0 i;
       tail \<leftarrow> substr_from p i;
       head \<leftarrow> (case find_last_not_of head [altsep, sep] of
                 None \<Rightarrow> Some head
               | Some j \<Rightarrow> erase_from head (j + 1));
       Some (d @ head, tail)
     }"

section \<open>The native-argv decoding grammar\<close>

text \<open>The text of the argument being read; it is empty when none has been started.\<close>

fun current :: "wstring option \<Rightarrow> wstring" where
  "current None = []"
| "current (Some t) = t"

text \<open>
  Modelled from the spec: the parser that turns the command line back into an argument
  list.  It belongs to the runtime of the spawned program, not to the repository.  The
  spec calls its grammar the native-argv decoding grammar, the standard convention by
  which a spawned program re-tokenizes the command line it receives, and the source
  names the parser the encoder is written for, \<^verbatim>\<open>CommandLineToArgvW\<close>.  In that
  convention arguments are delimited by white space, which is a space or a tab, and the
  spec gives the rule for backslashes: a run of backslashes before a quote is doubled
  and one more backslash escapes the quote.  Read from left to right:
  \<^item> outside quotes, a space or a tab ends the argument being read (if any);
  \<^item> a run of \<open>2n\<close> backslashes followed by a double quote stands for \<open>n\<close>
    backslashes, and the quote opens or closes a quoted part (it starts an argument
    if none is being read);
  \<^item> a run of \<open>2n+1\<close> backslashes followed by a double quote stands for \<open>n\<close>
    backslashes and a literal double quote;
  \<^item> backslashes not followed by a double quote, and every other code unit, stand for
    themselves.
  The state is: inside quotes or not, the number of backslashes of the run being read,
  and the argument being read (\<open>None\<close> between arguments).
\<close>

fun decode_loop :: "bool \<Rightarrow> nat \<Rightarrow> wstring option \<Rightarrow> wstring \<Rightarrow> wstring list" where
  "decode_loop in_quotes n cur [] =
     (case cur of None \<Rightarrow> [] | Some t \<Rightarrow> [t @ replicate n kBackslash])"
| "decode_loop in_quotes n cur (c # cs) =
     (if c = kBackslash then decode_loop in_quotes (Suc n) (Some (current cur)) cs
      else if c = kQuote then
        (if even n
         then decode_loop (\<not> in_quotes) 0
                (Some (current cur @ replicate (n div 2) kBackslash)) cs
         else decode_loop in_quotes 0
                (Some (current cur @ replicate (n div 2) kBackslash @ [kQuote])) cs)
      else if (c = kSpace \<or> c = kTab) \<and> \<not> in_quotes then
        (case cur of
           None \<Rightarrow> decode_loop False 0 None cs
         | Some t \<Rightarrow> (t @ replicate n kBackslash) # decode_loop False 0 None cs)
      else decode_loop in_quotes 0 (Some (current cur @ replicate n kBackslash @ [c])) cs)"

definition DecodeNativeArgv :: "wstring \<Rightarrow> wstring list" where
  "DecodeNativeArgv s = decode_loop False 0 None s"

text \<open>
  What the decoder returns for the text that follows a finished argument: nothing at the
  end of the line, else the arguments of the text after the delimiter.
\<close>

fun after_token :: "wstring \<Rightarrow> wstring list" where
  "after_token [] = []"
| "after_token (c # s) = decode_loop False 0 None s"

section \<open>Closed forms of the loops\<close>

text \<open>
  What \<^const>\<open>EscapeArgWin32_loop\<close> still emits for the rest \<open>cs\<close> of the argument when
  \<open>n\<close> backslashes have just been read: every code unit is copied, a quote gets \<open>n + 1\<close>
  more backslashes before it, and the end gets \<open>n\<close> more backslashes and the closing
  quote.
\<close>

fun esc_rest :: "nat \<Rightarrow> wstring \<Rightarrow> wstring" where
  "esc_rest n [] = replicate n kBackslash @ [kQuote]"
| "esc_rest n (c # cs) =
     (if c = kBackslash then c # esc_rest (Suc n) cs
      else if c = kQuote then replicate (Suc n) kBackslash @ c # esc_rest 0 cs
      else c # esc_rest 0 cs)"

text \<open>The token each encoder emits for one argument, before any caret is added.\<close>

definition Win32_token :: "wstring \<Rightarrow> wstring" where
  "Win32_token a =
     (if wcslen a \<noteq> 0 \<and> wcspbrk a kEscapeSet_Win32 = None then a else EscapeArgWin32 a)"

definition Cmd_token :: "wstring \<Rightarrow> wstring" where
  "Cmd_token a =
     (if wcslen a \<noteq> 0 \<and> wcspbrk a kEscapeSet_Cmd = None then a else EscapeArgWin32 a)"

text \<open>Tokens joined by single spaces; \<open>b\<close> tells whether a space precedes the first.\<close>

fun join_tokens :: "(wstring \<Rightarrow> wstring) \<Rightarrow> bool \<Rightarrow> wstring list \<Rightarrow> wstring" where
  "join_tokens tok b [] = []"
| "join_tokens tok b (a # as) = (if b then [kSpace] else []) @ tok a @ join_tokens tok True as"

text \<open>
  A caret before every shell metacharacter of a token, and before every space as well
  when \<open>first\<close> holds.
\<close>

definition caret_escape :: "bool \<Rightarrow> wstring \<Rightarrow> wstring" where
  "caret_escape first tok =
     concat (map (\<lambda>ch. if isCmdMetachar ch \<or> (first \<and> ch = kSpace) then [kCaret, ch] else [ch]) tok)"

text \<open>
  For each argument a space and the caret-escaped token; only the first token has its
  spaces escaped.  \<open>tok\<close> is the quoting rule applied to each argument.
\<close>

fun cmd_tokens :: "(wstring \<Rightarrow> wstring) \<Rightarrow> bool \<Rightarrow> wstring list \<Rightarrow> wstring" where
  "cmd_tokens tok first [] = []"
| "cmd_tokens tok first (a # as) =
     kSpace # caret_escape first (tok a) @ cmd_tokens tok False as"

section \<open>Properties\<close>

lemma EscapeArgWin32_loop_esc_rest:
  "span_begin \<le> it \<Longrightarrow> it \<le> length arg \<Longrightarrow>
   EscapeArgWin32_loop arg it span_begin n result =
     result @ take (it - span_begin) (drop span_begin arg) @ esc_rest n (drop it arg)"
proof (induction arg it span_begin n result rule: EscapeArgWin32_loop.induct)
  case (1 arg it span_begin n result)
  show ?case
  proof (cases "it < length arg")
    case False
    with "1.prems" have "it = length arg" by simp
    then show ?thesis
      by (subst EscapeArgWin32_loop.simps) simp
  next
    case True
    then have d: "drop it arg = arg ! it # drop (Suc it) arg"
      by (simp add: Cons_nth_drop_Suc)
    from True "1.prems" have t: "take (Suc it - span_begin) (drop span_begin arg) =
        take (it - span_begin) (drop span_begin arg) @ [arg ! it]"
      by (simp add: Suc_diff_le take_Suc_conv_app_nth)
    from True have t1: "take (Suc it - it) (drop it arg) = [arg ! it]"
      by (simp add: d)
    consider (bs) "arg ! it = kBackslash"
      | (q) "arg ! it \<noteq> kBackslash" "arg ! it = kQuote"
      | (other) "arg ! it \<noteq> kBackslash" "arg ! it \<noteq> kQuote"
      by blast
    then show ?thesis
    proof cases
      case bs
      with True "1.prems" "1.IH"(1) [OF True bs] show ?thesis
        by (subst EscapeArgWin32_loop.simps) (simp add: d t)
    next
      case q
      with True "1.prems" "1.IH"(2) [OF True q] show ?thesis
        by (subst EscapeArgWin32_loop.simps) (simp add: d t1)
    next
      case other
      with True "1.prems" "1.IH"(3) [OF True other] show ?thesis
        by (subst EscapeArgWin32_loop.simps) (simp add: d t)
    qed
  qed
qed

lemma EscapeArgWin32_esc_rest: "EscapeArgWin32 arg = kQuote # esc_rest 0 arg"
  by (simp add: EscapeArgWin32_def EscapeArgWin32_loop_esc_rest)

lemma EncodeCommandLineWin32_loop_join_aux:
  "nargs = length args \<Longrightarrow> i \<le> length args \<Longrightarrow>
   EncodeCommandLineWin32_loop nargs args i result =
     result @ join_tokens Win32_token (i \<noteq> 0) (drop i args)"
proof (induction nargs args i result rule: EncodeCommandLineWin32_loop.induct)
  case (1 nargs args i result)
  show ?case
  proof (cases "i < nargs")
    case False
    with "1.prems" show ?thesis
      by (subst EncodeCommandLineWin32_loop.simps) simp
  next
    case True
    with "1.prems" have d: "drop i args = args ! i # drop (Suc i) args"
      by (simp add: Cons_nth_drop_Suc)
    from True "1.prems" have le: "Suc i \<le> length args" by simp
    let ?r1 = "if i \<noteq> 0 then result @ [kSpace] else result"
    let ?r2 = "if wcslen (args ! i) \<noteq> 0 \<and> wcspbrk (args ! i) kEscapeSet_Win32 = None
               then ?r1 @ args ! i else ?r1 @ EscapeArgWin32 (args ! i)"
    have "EncodeCommandLineWin32_loop nargs args i result =
          EncodeCommandLineWin32_loop nargs args (Suc i) ?r2"
      using True by (subst EncodeCommandLineWin32_loop.simps) (simp only: if_True Let_def)
    also have "\<dots> = ?r2 @ join_tokens Win32_token (Suc i \<noteq> 0) (drop (Suc i) args)"
      by (rule "1.IH" [OF True refl refl "1.prems"(1) le])
    also have "\<dots> = result @ join_tokens Win32_token (i \<noteq> 0) (drop i args)"
      by (simp add: d Win32_token_def)
    finally show ?thesis .
  qed
qed

lemma EncodeCommandLineWin32_loop_join:
  "i \<le> length args \<Longrightarrow>
   EncodeCommandLineWin32_loop (length args) args i result =
     result @ join_tokens Win32_token (i \<noteq> 0) (drop i args)"
  by (rule EncodeCommandLineWin32_loop_join_aux) simp_all

lemma EncodeCommandLineWin32_join:
  "EncodeCommandLineWin32 (length args) args = join_tokens Win32_token False args"
  by (simp add: EncodeCommandLineWin32_def EncodeCommandLineWin32_loop_join)


lemma esc_rest_backslashes:
  "esc_rest k (replicate n kBackslash @ rest) = replicate n kBackslash @ esc_rest (k + n) rest"
  by (induction n arbitrary: k) simp_all

lemma esc_rest_plain:
  "kQuote \<notin> set lit \<Longrightarrow> lit \<noteq> [] \<Longrightarrow> last lit \<noteq> kBackslash \<Longrightarrow>
   esc_rest k (lit @ rest) = lit @ esc_rest 0 rest"
proof (induction lit arbitrary: k)
  case Nil
  then show ?case by simp
next
  case (Cons c lit)
  show ?case
  proof (cases "lit = []")
    case True
    with Cons.prems show ?thesis by simp
  next
    case False
    with Cons.prems Cons.IH show ?thesis by simp
  qed
qed

lemma esc_rest_plain0:
  "kQuote \<notin> set lit \<Longrightarrow> lit = [] \<or> last lit \<noteq> kBackslash \<Longrightarrow>
   esc_rest 0 (lit @ rest) = lit @ esc_rest 0 rest"
  by (cases "lit = []") (simp_all add: esc_rest_plain)

lemma replicate_double_Suc:
  "replicate n x @ replicate (Suc n) x @ ys = replicate (2 * n + 1) x @ ys"
proof -
  have "replicate n x @ replicate (Suc n) x = replicate (n + Suc n) x"
    by (simp only: replicate_add)
  moreover have "n + Suc n = 2 * n + 1" by simp
  ultimately have "replicate n x @ replicate (Suc n) x = replicate (2 * n + 1) x" by simp
  then show ?thesis by (metis append_assoc)
qed

lemma replicate_double:
  "replicate n x @ replicate n x @ ys = replicate (2 * n) x @ ys"
proof -
  have "replicate n x @ replicate n x = replicate (n + n) x"
    by (simp only: replicate_add)
  moreover have "n + n = 2 * n" by simp
  ultimately have "replicate n x @ replicate n x = replicate (2 * n) x" by simp
  then show ?thesis by (metis append_assoc)
qed

lemma esc_rest_segment:
  assumes "kQuote \<notin> set lit" "lit = [] \<or> last lit \<noteq> kBackslash"
  shows "esc_rest 0 (lit @ replicate n kBackslash @ kQuote # rest) =
         lit @ replicate (2 * n + 1) kBackslash @ kQuote # esc_rest 0 rest"
proof -
  have "esc_rest 0 (lit @ replicate n kBackslash @ kQuote # rest) =
        lit @ replicate n kBackslash @ esc_rest n (kQuote # rest)"
    using assms by (simp add: esc_rest_plain0 esc_rest_backslashes)
  also have "\<dots> = lit @ replicate n kBackslash @ replicate (Suc n) kBackslash
                     @ kQuote # esc_rest 0 rest"
    by simp
  finally show ?thesis
    by (simp only: replicate_double_Suc)
qed

lemma esc_rest_segments:
  assumes "\<forall>(lit, n) \<in> set segs. kQuote \<notin> set lit \<and> (lit = [] \<or> last lit \<noteq> kBackslash)"
  shows "esc_rest 0 (concat (map (\<lambda>(lit, n). lit @ replicate n kBackslash @ [kQuote]) segs) @ rest) =
         concat (map (\<lambda>(lit, n). lit @ replicate (2 * n + 1) kBackslash @ [kQuote]) segs)
           @ esc_rest 0 rest"
  using assms
proof (induction segs)
  case Nil
  then show ?case by simp
next
  case (Cons s segs)
  obtain lit n where s: "s = (lit, n)" by (cases s)
  from Cons.prems s have p: "kQuote \<notin> set lit" "lit = [] \<or> last lit \<noteq> kBackslash"
    by auto
  from Cons.prems have "\<forall>(lit, n) \<in> set segs. kQuote \<notin> set lit \<and> (lit = [] \<or> last lit \<noteq> kBackslash)"
    by simp
  from Cons.IH [OF this] show ?case
    using esc_rest_segment [OF p] by (simp add: s)
qed

text \<open>
  Claim C2, as the code has it.  Every argument is a sequence of segments, each a
  literal text (free of quotes, not ending in a backslash), a run of \<open>n\<close> backslashes
  and a double quote, followed by a last literal text and a trailing run of \<open>m\<close>
  backslashes.  \<^const>\<open>EscapeArgWin32\<close> emits the opening quote, then for each segment
  the literal text, \<open>2n+1\<close> backslashes and the quote, then the last literal text,
  \<open>2m\<close> backslashes (the trailing run is doubled, not left as it is) and the closing
  quote.
\<close>

theorem EscapeArgWin32_segments:
  assumes "\<forall>(lit, n) \<in> set segs. kQuote \<notin> set lit \<and> (lit = [] \<or> last lit \<noteq> kBackslash)"
    and "kQuote \<notin> set lit'" and "lit' = [] \<or> last lit' \<noteq> kBackslash"
  shows "EscapeArgWin32
           (concat (map (\<lambda>(lit, n). lit @ replicate n kBackslash @ [kQuote]) segs)
              @ lit' @ replicate m kBackslash) =
         [kQuote]
           @ concat (map (\<lambda>(lit, n). lit @ replicate (2 * n + 1) kBackslash @ [kQuote]) segs)
           @ lit' @ replicate (2 * m) kBackslash @ [kQuote]"
proof -
  have "esc_rest 0 (lit' @ replicate m kBackslash) =
        lit' @ replicate m kBackslash @ replicate m kBackslash @ [kQuote]"
    using assms(2,3) esc_rest_plain0 [of lit' "replicate m kBackslash"]
      esc_rest_backslashes [of 0 m "[]"] by simp
  then have "esc_rest 0 (lit' @ replicate m kBackslash) =
        lit' @ replicate (2 * m) kBackslash @ [kQuote]"
    by (simp only: replicate_double)
  then show ?thesis
    using esc_rest_segments [OF assms(1)] by (simp add: EscapeArgWin32_esc_rest)
qed

theorem EscapeArgWin32_segments_witness:
  "EscapeArgWin32 [0x61, kBackslash, kBackslash, kQuote, 0x62, kBackslash] =
   [kQuote, 0x61, kBackslash, kBackslash, kBackslash, kBackslash, kBackslash, kQuote,
    0x62, kBackslash, kBackslash, kQuote]"
proof -
  have h1: "\<forall>(lit, n) \<in> set [([0x61 :: wchar_t], Suc (Suc 0))].
              kQuote \<notin> set lit \<and> (lit = [] \<or> last lit \<noteq> kBackslash)"
    by simp
  have h2: "kQuote \<notin> set [0x62 :: wchar_t]" by simp
  have h3: "[0x62 :: wchar_t] = [] \<or> last [0x62 :: wchar_t] \<noteq> kBackslash" by simp
  have r: "replicate 4 kBackslash = [kBackslash, kBackslash, kBackslash, kBackslash]"
    "replicate 2 kBackslash = [kBackslash, kBackslash]"
    by (simp_all add: numeral_eq_Suc)
  show ?thesis
    using EscapeArgWin32_segments [OF h1 h2 h3, of "Suc 0"] by (simp add: r)
qed

text \<open>
  The argument made of \<^verbatim>\<open>a b\<close> and one trailing backslash holds a space, so the
  native encoder hands it to \<^const>\<open>EscapeArgWin32\<close>.  It is emitted with two
  backslashes before the closing quote, not with one.
\<close>

theorem EscapeArgWin32_trailing_run_counterexample:
  "EncodeCommandLineWin32 1 [[0x61, kSpace, 0x62, kBackslash]] =
     [kQuote, 0x61, kSpace, 0x62, kBackslash, kBackslash, kQuote] \<and>
   EscapeArgWin32 [0x61, kSpace, 0x62, kBackslash] =
     [kQuote, 0x61, kSpace, 0x62, kBackslash, kBackslash, kQuote] \<and>
   EscapeArgWin32 [0x61, kSpace, 0x62, kBackslash] \<noteq>
     [kQuote, 0x61, kSpace, 0x62, kBackslash, kQuote]"
  by (simp add: EncodeCommandLineWin32_def EncodeCommandLineWin32_loop.simps
        EscapeArgWin32_def EscapeArgWin32_loop.simps wcslen_def kEscapeSet_Win32_def L_def)

lemma wcspbrk_None: "wcspbrk s cs = None \<longleftrightarrow> set s \<inter> set cs = {}"
  by (induction s) auto

lemma Win32_token_single:
  "EncodeCommandLineWin32 1 [a] = Win32_token a"
  "EncodeCommandLineWin32 (Suc 0) [a] = Win32_token a"
  using EncodeCommandLineWin32_join [of "[a]"] by simp_all

lemma join_tokens_True:
  "join_tokens tok True as = concat (map (\<lambda>a. kSpace # tok a) as)"
  by (induction as) simp_all

lemma join_tokens_append:
  "join_tokens tok b (pre @ a # post) =
     join_tokens tok b pre @ (if b \<or> pre \<noteq> [] then [kSpace] else []) @ tok a
       @ join_tokens tok True post"
  by (induction pre arbitrary: b) simp_all

lemma Win32_token_empty: "Win32_token [] = [kQuote, kQuote]"
  by (simp add: Win32_token_def wcslen_def EscapeArgWin32_esc_rest)

text \<open>
  Claim C7.  The native encoding of the list that holds one empty string is the
  two-character token of two double quotes, and an empty string at any position of an
  argument list is emitted as that token: the empty string always takes the quoting
  branch.
\<close>

theorem EncodeCommandLineWin32_empty_string:
  "EncodeCommandLineWin32 1 [[]] = [kQuote, kQuote] \<and>
   EncodeCommandLineWin32 (length (pre @ [] # post)) (pre @ [] # post) =
     EncodeCommandLineWin32 (length pre) pre
       @ (if pre = [] then [] else [kSpace]) @ [kQuote, kQuote]
       @ concat (map (\<lambda>a. kSpace # EncodeCommandLineWin32 1 [a]) post)"
proof
  show "EncodeCommandLineWin32 1 [[]] = [kQuote, kQuote]"
    by (simp add: Win32_token_single Win32_token_empty)
  show "EncodeCommandLineWin32 (length (pre @ [] # post)) (pre @ [] # post) =
     EncodeCommandLineWin32 (length pre) pre
       @ (if pre = [] then [] else [kSpace]) @ [kQuote, kQuote]
       @ concat (map (\<lambda>a. kSpace # EncodeCommandLineWin32 1 [a]) post)"
    by (simp only: EncodeCommandLineWin32_join join_tokens_append join_tokens_True
          Win32_token_single Win32_token_empty) simp
qed

theorem EncodeCommandLineWin32_empty_string_witness:
  "EncodeCommandLineWin32 3 [[0x61], [], [0x62]] = [0x61, kSpace, kQuote, kQuote, kSpace, 0x62]"
proof -
  have "EncodeCommandLineWin32 1 [[0x61]] = [0x61]" "EncodeCommandLineWin32 1 [[0x62]] = [0x62]"
    by (simp_all add: Win32_token_single Win32_token_def wcslen_def kEscapeSet_Win32_def L_def)
  then show ?thesis
    using EncodeCommandLineWin32_empty_string [of "[[0x61]]" "[[0x62]]"]
    by (simp add: numeral_3_eq_3)
qed

subsection \<open>Round trip through the decoding grammar\<close>

lemma decode_loop_backslashes:
  "decode_loop q n (Some t) (replicate k kBackslash @ s) = decode_loop q (n + k) (Some t) s"
  by (induction k arbitrary: n) simp_all

lemma replicate_shift: "replicate n x @ x # ys = x # replicate n x @ ys"
  by (induction n) simp_all

lemma decode_loop_esc_rest:
  "decode_loop True n (Some t) (esc_rest n arg @ s) =
   decode_loop False 0 (Some (t @ replicate n kBackslash @ arg)) s"
proof (induction arg arbitrary: n t)
  case Nil
  have "decode_loop True n (Some t) (esc_rest n [] @ s) =
        decode_loop True (n + n) (Some t) (kQuote # s)"
    using decode_loop_backslashes [of True n t n "kQuote # s"] by simp
  also have "\<dots> = decode_loop False 0 (Some (t @ replicate n kBackslash)) s"
    by simp
  finally show ?case by simp
next
  case (Cons c cs)
  consider (bs) "c = kBackslash" | (q) "c = kQuote" | (other) "c \<noteq> kBackslash" "c \<noteq> kQuote"
    by blast
  then show ?case
  proof cases
    case bs
    then show ?thesis
      using Cons.IH [of "Suc n" t] by (simp add: replicate_shift)
  next
    case q
    have "decode_loop True n (Some t) (esc_rest n (c # cs) @ s) =
          decode_loop True (n + Suc n) (Some t) (kQuote # esc_rest 0 cs @ s)"
      using q decode_loop_backslashes [of True n t "Suc n" "kQuote # esc_rest 0 cs @ s"]
      by simp
    also have "\<dots> = decode_loop True 0 (Some (t @ replicate n kBackslash @ [kQuote]))
                        (esc_rest 0 cs @ s)"
      by simp
    also have "\<dots> = decode_loop False 0 (Some (t @ replicate n kBackslash @ c # cs)) s"
      using q Cons.IH [of 0 "t @ replicate n kBackslash @ [kQuote]"] by simp
    finally show ?thesis .
  next
    case other
    then show ?thesis
      using Cons.IH [of 0 "t @ replicate n kBackslash @ [c]"] by simp
  qed
qed

lemma decode_loop_end:
  "s = [] \<or> hd s = kSpace \<Longrightarrow>
   decode_loop False n (Some t) s = (t @ replicate n kBackslash) # after_token s"
  by (cases s) auto

lemma decode_loop_plain:
  "kSpace \<notin> set w \<Longrightarrow> kTab \<notin> set w \<Longrightarrow> kQuote \<notin> set w \<Longrightarrow>
   s = [] \<or> hd s = kSpace \<Longrightarrow>
   decode_loop False n (Some t) (w @ s) = (t @ replicate n kBackslash @ w) # after_token s"
proof (induction w arbitrary: n t)
  case Nil
  then show ?case by (simp add: decode_loop_end)
next
  case (Cons c w)
  show ?case
  proof (cases "c = kBackslash")
    case True
    with Cons.prems Cons.IH [of "Suc n" t] show ?thesis
      by (simp add: replicate_shift)
  next
    case False
    with Cons.prems Cons.IH [of 0 "t @ replicate n kBackslash @ [c]"] show ?thesis
      by simp
  qed
qed


lemma decode_loop_start:
  "c \<noteq> kSpace \<Longrightarrow> c \<noteq> kTab \<Longrightarrow>
   decode_loop False 0 None (c # s) = decode_loop False 0 (Some []) (c # s)"
  by simp

lemma kEscapeSet_Win32_members: "kSpace \<in> set kEscapeSet_Win32" "kQuote \<in> set kEscapeSet_Win32"
  by (simp_all add: kEscapeSet_Win32_def L_def)

lemma decode_loop_Win32_token:
  assumes "s = [] \<or> hd s = kSpace" and "kTab \<notin> set a"
  shows "decode_loop False 0 None (Win32_token a @ s) = a # after_token s"
proof (cases "wcslen a \<noteq> 0 \<and> wcspbrk a kEscapeSet_Win32 = None")
  case True
  then have tok: "Win32_token a = a" by (simp add: Win32_token_def)
  from True have ne: "a \<noteq> []" by (auto simp: wcslen_def)
  from True kEscapeSet_Win32_members have plain: "kSpace \<notin> set a" "kQuote \<notin> set a"
    by (auto simp: wcspbrk_None)
  from ne plain assms(2) obtain c w where a: "a = c # w" and c: "c \<noteq> kSpace" "c \<noteq> kTab"
    by (cases a) auto
  have "decode_loop False 0 None (a @ s) = decode_loop False 0 (Some []) (a @ s)"
    using decode_loop_start [OF c] by (simp add: a)
  also have "\<dots> = a # after_token s"
    using decode_loop_plain [OF plain(1) assms(2) plain(2) assms(1), of 0 "[]"] by simp
  finally show ?thesis by (simp add: tok)
next
  case False
  then have tok: "Win32_token a = kQuote # esc_rest 0 a"
    by (auto simp: Win32_token_def EscapeArgWin32_esc_rest)
  have "decode_loop False 0 None (kQuote # esc_rest 0 a @ s) =
        decode_loop True 0 (Some []) (esc_rest 0 a @ s)"
    by simp
  also have "\<dots> = decode_loop False 0 (Some a) s"
    using decode_loop_esc_rest [of 0 "[]" a s] by simp
  also have "\<dots> = a # after_token s"
    using decode_loop_end [OF assms(1), of 0 a] by simp
  finally show ?thesis by (simp add: tok)
qed

lemma join_tokens_True_cases:
  "join_tokens tok True as = (if as = [] then [] else kSpace # join_tokens tok False as)"
  by (cases as) simp_all

lemma decode_loop_join_tokens:
  "\<forall>a \<in> set args. kTab \<notin> set a \<Longrightarrow>
   decode_loop False 0 None (join_tokens Win32_token False args) = args"
proof (induction args)
  case Nil
  show ?case by simp
next
  case (Cons a as)
  let ?s = "join_tokens Win32_token True as"
  have s: "?s = [] \<or> hd ?s = kSpace"
    by (simp add: join_tokens_True_cases)
  from Cons.prems have a: "kTab \<notin> set a" by simp
  have "after_token ?s = as"
    using Cons.IH Cons.prems by (simp add: join_tokens_True_cases)
  then show ?case
    using decode_loop_Win32_token [OF s a] by simp
qed

text \<open>
  The round trip holds for every argument list that is free of tabs, whatever else the
  arguments hold: empty strings, spaces, trailing backslashes, double quotes, runs of
  backslashes before quotes.
\<close>

lemma DecodeNativeArgv_round_trip_without_tab:
  "\<forall>a \<in> set argv. kTab \<notin> set a \<Longrightarrow>
   DecodeNativeArgv (EncodeCommandLineWin32 (length argv) argv) = argv"
  by (simp add: DecodeNativeArgv_def EncodeCommandLineWin32_join decode_loop_join_tokens)

text \<open>
  Claim C1.  The claim asks for the round trip for every argument list without line
  terminators.  The native encoder does not keep it for an argument that holds a tab:
  the tab is not in its escape set, so the argument \<^verbatim>\<open>a<TAB>b\<close> is emitted without
  quotes, and the decoding grammar reads two arguments where one was encoded.
\<close>

theorem EncodeCommandLineWin32_tab_round_trip_fails:
  "EncodeCommandLineWin32 2 [[0x78], [0x61, kTab, 0x62]] = [0x78, kSpace, 0x61, kTab, 0x62] \<and>
   DecodeNativeArgv [0x78, kSpace, 0x61, kTab, 0x62] = [[0x78], [0x61], [0x62]] \<and>
   DecodeNativeArgv (EncodeCommandLineWin32 2 [[0x78], [0x61, kTab, 0x62]]) \<noteq>
     [[0x78], [0x61, kTab, 0x62]]"
proof -
  have e: "EncodeCommandLineWin32 2 [[0x78], [0x61, kTab, 0x62]] =
           [0x78, kSpace, 0x61, kTab, 0x62]"
    by (simp add: EncodeCommandLineWin32_def EncodeCommandLineWin32_loop.simps
          wcslen_def kEscapeSet_Win32_def L_def)
  have d: "DecodeNativeArgv [0x78, kSpace, 0x61, kTab, 0x62] = [[0x78], [0x61], [0x62]]"
    by (simp add: DecodeNativeArgv_def)
  show ?thesis by (simp add: e d)
qed

subsection \<open>The shell encoder\<close>

lemma push_caret_escaped_concat:
  "push_caret_escaped p arg result =
     result @ concat (map (\<lambda>ch. if p ch then [kCaret, ch] else [ch]) arg)"
  by (induction arg arbitrary: result) simp_all

lemma push_caret_escaped_first:
  "push_caret_escaped (\<lambda>ch. isCmdMetachar ch \<or> ch = kSpace) arg result =
     result @ caret_escape True arg"
  by (simp add: push_caret_escaped_concat caret_escape_def)

lemma push_caret_escaped_later:
  "push_caret_escaped isCmdMetachar arg result = result @ caret_escape False arg"
  by (simp add: push_caret_escaped_concat caret_escape_def)

lemma EncodeCommandLineCmd_loop_tokens:
  "nargs = length args \<Longrightarrow> i \<le> length args \<Longrightarrow>
   EncodeCommandLineCmd_loop nargs args i result =
     result @ cmd_tokens Cmd_token (i = 0) (drop i args)"
proof (induction nargs args i result rule: EncodeCommandLineCmd_loop.induct)
  case (1 nargs args i result)
  show ?case
  proof (cases "i < nargs")
    case False
    with "1.prems" show ?thesis
      by (subst EncodeCommandLineCmd_loop.simps) simp
  next
    case True
    with "1.prems" have d: "drop i args = args ! i # drop (Suc i) args"
      by (simp add: Cons_nth_drop_Suc)
    from True "1.prems" have le: "Suc i \<le> length args" by simp
    let ?r1 = "result @ [kSpace]"
    let ?arg = "if wcslen (args ! i) \<noteq> 0 \<and> wcspbrk (args ! i) kEscapeSet_Cmd = None
                then args ! i else EscapeArgWin32 (args ! i)"
    let ?r2 = "if i = 0
               then push_caret_escaped (\<lambda>ch. isCmdMetachar ch \<or> ch = kSpace) ?arg ?r1
               else push_caret_escaped isCmdMetachar ?arg ?r1"
    have "EncodeCommandLineCmd_loop nargs args i result =
          EncodeCommandLineCmd_loop nargs args (Suc i) ?r2"
      using True by (subst EncodeCommandLineCmd_loop.simps) (simp only: if_True Let_def)
    also have "\<dots> = ?r2 @ cmd_tokens Cmd_token (Suc i = 0) (drop (Suc i) args)"
      by (rule "1.IH" [OF True refl refl refl "1.prems"(1) le])
    also have "\<dots> = result @ cmd_tokens Cmd_token (i = 0) (drop i args)"
      by (simp add: d Cmd_token_def push_caret_escaped_first push_caret_escaped_later)
    finally show ?thesis .
  qed
qed

lemma EncodeCommandLineCmd_tokens:
  "EncodeCommandLineCmd (length args) args =
     L ''cmd.exe /D /C'' @ cmd_tokens Cmd_token True args"
  by (simp add: EncodeCommandLineCmd_def EncodeCommandLineCmd_loop_tokens)

lemma Cmd_token_eq:
  "Cmd_token = (\<lambda>a. if a \<noteq> [] \<and> kSpace \<notin> set a \<and> kQuote \<notin> set a then a
                     else EscapeArgWin32 a)"
  by (rule ext) (simp add: Cmd_token_def wcslen_def wcspbrk_None kEscapeSet_Cmd_def L_def)

lemma cmd_tokens_enumerate:
  "cmd_tokens tok (n = 0) as =
     concat (map (\<lambda>(i, a). kSpace #
         concat (map (\<lambda>ch. if ch \<in> set (L ''()%!^\"<>&|'') \<or> (i = 0 \<and> ch = kSpace)
                           then [kCaret, ch] else [ch]) (tok a)))
       (enumerate n as))"
proof (induction as arbitrary: n)
  case Nil
  show ?case by simp
next
  case (Cons a as)
  from Cons.IH [of "Suc n"] show ?case
    by (simp add: caret_escape_def isCmdMetachar_def)
qed

text \<open>
  Claim C3, as the code has it.  For an argument list whose first entry is a shell
  builtin, the command line is the stub \<^verbatim>\<open>cmd.exe /D /C\<close> followed, for each argument,
  by a space and the argument's token with a caret before each of the ten characters
  \<^verbatim>\<open>( ) % ! ^ " < > & |\<close>, and before each space too in the token of the first
  argument (the one at position 0).  The token is the argument itself when it is not
  empty and holds neither a space nor a double quote, and \<^const>\<open>EscapeArgWin32\<close> of it
  otherwise: the characters \<^verbatim>\<open>~ @ ? * [\<close> of the native encoder's escape set do not
  make the shell encoder quote.
\<close>

theorem EncodeCommandLineCmd_ShellBuiltin:
  assumes "argv \<noteq> []" and "IsCmdBuiltin (argv ! 0)"
  shows "CallProcess_cmd (length argv) argv =
         L ''cmd.exe /D /C'' @
         concat (map (\<lambda>(i, a). kSpace #
             concat (map (\<lambda>ch. if ch \<in> set (L ''()%!^\"<>&|'') \<or> (i = 0 \<and> ch = kSpace)
                               then [kCaret, ch] else [ch])
               (if a \<noteq> [] \<and> kSpace \<notin> set a \<and> kQuote \<notin> set a then a
                else EscapeArgWin32 a)))
           (enumerate 0 argv))"
proof -
  have "CallProcess_cmd (length argv) argv =
        L ''cmd.exe /D /C'' @ cmd_tokens Cmd_token (0 = (0::nat)) argv"
    using assms by (simp add: CallProcess_cmd_def EncodeCommandLineCmd_tokens)
  then show ?thesis
    by (simp only: cmd_tokens_enumerate Cmd_token_eq)
qed

lemma IsCmdBuiltin_echo: "IsCmdBuiltin (L ''echo'')"
  by (simp add: IsCmdBuiltin_def binary_search_def lower_bound.simps kCmdBuiltins_def
        L_def towlower_def Let_def)

theorem EncodeCommandLineCmd_ShellBuiltin_witness:
  "IsCmdBuiltin (L ''echo'') \<and>
   CallProcess_cmd 3 [L ''echo'', L ''a|b>c%d(e)!f^g<h'', L ''x y&z''] =
     L ''cmd.exe /D /C echo a^|b^>c^%d^(e^)^!f^^g^<h ^\"x y^&z^\"''"
proof -
  let ?argv = "[L ''echo'', L ''a|b>c%d(e)!f^g<h'', L ''x y&z'']"
  have ne: "?argv \<noteq> []" by simp
  have b: "IsCmdBuiltin (?argv ! 0)" by (simp add: IsCmdBuiltin_echo)
  have len: "length ?argv = 3" by simp
  have "CallProcess_cmd 3 ?argv =
        L ''cmd.exe /D /C echo a^|b^>c^%d^(e^)^!f^^g^<h ^\"x y^&z^\"''"
    using EncodeCommandLineCmd_ShellBuiltin [OF ne b]
    by (simp only: len) (simp add: L_def EscapeArgWin32_esc_rest)
  then show ?thesis by (simp only: IsCmdBuiltin_echo simp_thms)
qed

text \<open>
  The glob character \<^verbatim>\<open>*\<close> makes the native encoder quote the argument \<^verbatim>\<open>a*b\<close>; the
  shell encoder leaves it as it is.  With the token of the native encoder in the place
  of the shell encoder's, the command line would be \<^verbatim>\<open>cmd.exe /D /C echo ^"a*b^"\<close>.
\<close>

theorem EncodeCommandLineCmd_native_rule_counterexample:
  "IsCmdBuiltin (L ''echo'') \<and>
   EncodeCommandLineWin32 1 [L ''a*b''] = L ''\"a*b\"'' \<and>
   CallProcess_cmd 2 [L ''echo'', L ''a*b''] = L ''cmd.exe /D /C echo a*b'' \<and>
   CallProcess_cmd 2 [L ''echo'', L ''a*b''] \<noteq>
     L ''cmd.exe /D /C'' @
     concat (map (\<lambda>(i, a). kSpace #
         concat (map (\<lambda>ch. if ch \<in> set (L ''()%!^\"<>&|'') \<or> (i = 0 \<and> ch = kSpace)
                           then [kCaret, ch] else [ch])
           (EncodeCommandLineWin32 1 [a])))
       (enumerate 0 [L ''echo'', L ''a*b'']))"
proof -
  let ?argv = "[L ''echo'', L ''a*b'']"
  have "length ?argv = 2" by simp
  with EncodeCommandLineCmd_tokens [of ?argv]
  have "EncodeCommandLineCmd 2 ?argv = L ''cmd.exe /D /C'' @ cmd_tokens Cmd_token True ?argv"
    by (simp only:)
  also have "\<dots> = L ''cmd.exe /D /C echo a*b''"
    by (simp add: Cmd_token_eq) (simp add: L_def caret_escape_def isCmdMetachar_def)
  finally have code: "CallProcess_cmd 2 ?argv = L ''cmd.exe /D /C echo a*b''"
    by (simp add: CallProcess_cmd_def IsCmdBuiltin_echo)
  have t2: "EncodeCommandLineWin32 1 [L ''a*b''] = L ''\"a*b\"''"
    by (simp add: Win32_token_single Win32_token_def wcslen_def kEscapeSet_Win32_def L_def
          EscapeArgWin32_esc_rest)
  have claimed: "L ''cmd.exe /D /C'' @
     concat (map (\<lambda>(i, a). kSpace #
         concat (map (\<lambda>ch. if ch \<in> set (L ''()%!^\"<>&|'') \<or> (i = 0 \<and> ch = kSpace)
                           then [kCaret, ch] else [ch])
           (EncodeCommandLineWin32 1 [a])))
       (enumerate 0 ?argv)) = L ''cmd.exe /D /C echo ^\"a*b^\"''"
    by (simp add: Win32_token_single Win32_token_def wcslen_def kEscapeSet_Win32_def L_def
          EscapeArgWin32_esc_rest)
  have "L ''cmd.exe /D /C echo a*b'' \<noteq> L ''cmd.exe /D /C echo ^\"a*b^\"''"
    by (simp add: L_def)
  with code claimed t2 show ?thesis
    by (simp only: IsCmdBuiltin_echo simp_thms)
qed

lemma IsCmdBuiltin_cd: "IsCmdBuiltin (L ''cd'')"
  by (simp add: IsCmdBuiltin_def binary_search_def lower_bound.simps kCmdBuiltins_def
        L_def towlower_def Let_def)

lemma CallProcess_cmd_cd:
  "CallProcess_cmd 2 [L ''cd'', L ''C:'' @ [kBackslash] @ L ''Program Files''] =
   L ''cmd.exe /D /C cd ^\"C:'' @ [kBackslash] @ L ''Program Files^\"''"
proof -
  let ?dir = "L ''C:'' @ [kBackslash] @ L ''Program Files''"
  let ?argv = "[L ''cd'', ?dir]"
  have "length ?argv = 2" by simp
  with EncodeCommandLineCmd_tokens [of ?argv]
  have "EncodeCommandLineCmd 2 ?argv = L ''cmd.exe /D /C'' @ cmd_tokens Cmd_token True ?argv"
    by (simp only:)
  also have "\<dots> = L ''cmd.exe /D /C cd ^\"C:'' @ [kBackslash] @ L ''Program Files^\"''"
    by (simp add: Cmd_token_def wcslen_def kEscapeSet_Cmd_def L_def EscapeArgWin32_esc_rest
          caret_escape_def isCmdMetachar_def)
  finally show ?thesis
    by (simp add: CallProcess_cmd_def IsCmdBuiltin_cd)
qed

text \<open>
  Claim C4, as the code has it.  \<^verbatim>\<open>cd\<close> is a shell builtin, and the argument list
  \<^verbatim>\<open>cd\<close>, \<^verbatim>\<open>C:\Program Files\<close> is encoded as the stub, the unchanged builtin name, a
  space, and the quoted second argument with a caret before each of its two double
  quotes: \<^verbatim>\<open>cmd.exe /D /C cd ^"C:\Program Files^"\<close>.
\<close>

theorem EncodeCommandLineCmd_cd_Program_Files:
  "IsCmdBuiltin (L ''cd'') \<and>
   CallProcess_cmd 2 [L ''cd'', L ''C:'' @ [kBackslash] @ L ''Program Files''] =
   L ''cmd.exe /D /C cd ^\"C:'' @ [kBackslash] @ L ''Program Files^\"''"
  by (simp only: IsCmdBuiltin_cd CallProcess_cmd_cd simp_thms)

text \<open>The command line is not the one without carets.\<close>

theorem EncodeCommandLineCmd_cd_Program_Files_counterexample:
  "CallProcess_cmd 2 [L ''cd'', L ''C:'' @ [kBackslash] @ L ''Program Files''] \<noteq>
   L ''cmd.exe /D /C cd \"C:'' @ [kBackslash] @ L ''Program Files\"''"
  by (simp only: CallProcess_cmd_cd) (simp add: L_def)

subsection \<open>The supervisor\<close>

text \<open>
  Claim C5.  When every step before the spawn succeeds and \<^verbatim>\<open>CreateProcessW\<close> fails:
  if the last error is \<^verbatim>\<open>ERROR_FILE_NOT_FOUND\<close>, the function writes the one line
  \<^verbatim>\<open>argv[0]: not found\<close> and returns 127 to its caller; with any other last error it
  writes \<^verbatim>\<open>FATAL: Unable to create process\<close> and ends the launcher with status 1.
\<close>

theorem CallProcess_spawn_failure:
  assumes "argc \<noteq> 0"
    and "query_ok sys" and "query_len sys = sizeof_info sys" and "job_created sys"
    and "set_ok sys" and "ctrl_handler_ok sys"
    and "\<not> create_process_ok sys"
  shows "(last_error sys = ERROR_FILE_NOT_FOUND \<longrightarrow>
            ending (CallProcess sys argc argv) = Returned 127 \<and>
            wcerr (CallProcess sys argc argv) = argv ! 0 @ L '': not found'' @ [kNewline]) \<and>
         (last_error sys \<noteq> ERROR_FILE_NOT_FOUND \<longrightarrow>
            ending (CallProcess sys argc argv) = Exited 1 \<and>
            wcerr (CallProcess sys argc argv) =
              L ''FATAL: Unable to create process'' @ [kNewline])"
  using assms by (simp add: CallProcess_def Die_def Let_def L_def)

theorem CallProcess_spawn_failure_witness:
  "ending (CallProcess
      \<lparr>job_created = True, query_ok = True, query_len = 144, sizeof_info = 144,
       set_ok = True, ctrl_handler_ok = True, create_process_ok = False,
       last_error = 2, exit_code_ok = True, exit_code = 0\<rparr> 1 [L ''nosuch'']) = Returned 127 \<and>
   wcerr (CallProcess
      \<lparr>job_created = True, query_ok = True, query_len = 144, sizeof_info = 144,
       set_ok = True, ctrl_handler_ok = True, create_process_ok = False,
       last_error = 2, exit_code_ok = True, exit_code = 0\<rparr> 1 [L ''nosuch'']) =
     L ''nosuch: not found'' @ [kNewline] \<and>
   ending (CallProcess
      \<lparr>job_created = True, query_ok = True, query_len = 144, sizeof_info = 144,
       set_ok = True, ctrl_handler_ok = True, create_process_ok = False,
       last_error = 5, exit_code_ok = True, exit_code = 0\<rparr> 1 [L ''nosuch'']) = Exited 1 \<and>
   wcerr (CallProcess
      \<lparr>job_created = True, query_ok = True, query_len = 144, sizeof_info = 144,
       set_ok = True, ctrl_handler_ok = True, create_process_ok = False,
       last_error = 5, exit_code_ok = True, exit_code = 0\<rparr> 1 [L ''nosuch'']) =
     L ''FATAL: Unable to create process'' @ [kNewline]"
  using
    CallProcess_spawn_failure [of 1
      "\<lparr>job_created = True, query_ok = True, query_len = 144, sizeof_info = 144,
        set_ok = True, ctrl_handler_ok = True, create_process_ok = False,
        last_error = 2, exit_code_ok = True, exit_code = 0\<rparr>" "[L ''nosuch'']"]
    CallProcess_spawn_failure [of 1
      "\<lparr>job_created = True, query_ok = True, query_len = 144, sizeof_info = 144,
        set_ok = True, ctrl_handler_ok = True, create_process_ok = False,
        last_error = 5, exit_code_ok = True, exit_code = 0\<rparr>" "[L ''nosuch'']"]
  by (simp add: L_def)

text \<open>
  Claim C8.  With \<open>argc = 0\<close> the function writes \<^verbatim>\<open>FATAL: No arguments specified\<close>
  and a line end to the error stream and ends the launcher with status 1.  No system
  call is made, and neither the argument array nor the answers of the system matter:
  nothing is classified, encoded or spawned.
\<close>

theorem CallProcess_no_arguments:
  "CallProcess sys 0 argv =
     \<lparr>wcerr = L ''FATAL: No arguments specified'' @ [kNewline], calls = [], ending = Exited 1\<rparr>"
  by (simp add: CallProcess_def Die_def L_def)

theorem CallProcess_no_arguments_witness:
  "take 6 (wcerr (CallProcess
      \<lparr>job_created = True, query_ok = True, query_len = 144, sizeof_info = 144,
       set_ok = True, ctrl_handler_ok = True, create_process_ok = True,
       last_error = 0, exit_code_ok = True, exit_code = 0\<rparr> 0 [])) = L ''FATAL:''"
  by (simp add: CallProcess_no_arguments L_def)

subsection \<open>Classification of the first argument\<close>

lemma wcsicmp_cong:
  "map towlower a = map towlower a' \<Longrightarrow> map towlower b = map towlower b' \<Longrightarrow>
   wcsicmp a b = wcsicmp a' b'"
proof (induction a b arbitrary: a' b' rule: wcsicmp.induct)
  case 1
  then show ?case by simp
next
  case (2 b bs)
  then show ?case by (cases b') auto
next
  case (3 a as)
  then show ?case by (cases a') auto
next
  case (4 a as b bs)
  from "4.prems" obtain x xs y ys where a': "a' = x # xs" and b': "b' = y # ys"
    by (cases a'; cases b') auto
  with "4.prems" have h: "towlower a = towlower x" "towlower b = towlower y"
    "map towlower as = map towlower xs" "map towlower bs = map towlower ys"
    by auto
  show ?case
  proof (cases "towlower a = towlower b")
    case True
    with h "4.IH" [OF True h(3) h(4)] show ?thesis by (simp add: a' b')
  next
    case False
    with h show ?thesis by (simp add: a' b')
  qed
qed

lemma lower_bound_cong:
  "(\<And>x. cmp x v = cmp x v') \<Longrightarrow>
   lower_bound cmp xs first count v = lower_bound cmp xs first count v'"
proof (induction cmp xs first count v rule: lower_bound.induct)
  case (1 cmp xs first count v)
  show ?case
  proof (cases "0 < count")
    case False
    then show ?thesis by (simp add: lower_bound.simps)
  next
    case True
    show ?thesis
    proof (cases "cmp (xs ! (first + count div 2)) v")
      case c: True
      have "lower_bound cmp xs first count v =
            lower_bound cmp xs (Suc (first + count div 2)) (count - (count div 2 + 1)) v"
        using True c by (subst lower_bound.simps) (simp add: Let_def)
      also have "\<dots> = lower_bound cmp xs (Suc (first + count div 2)) (count - (count div 2 + 1)) v'"
        using "1.IH"(1) [OF True refl refl c] "1.prems" by simp
      also have "\<dots> = lower_bound cmp xs first count v'"
        using True c "1.prems" by (subst (2) lower_bound.simps) (simp add: Let_def)
      finally show ?thesis .
    next
      case c: False
      have "lower_bound cmp xs first count v = lower_bound cmp xs first (count div 2) v"
        using True c by (subst lower_bound.simps) (simp add: Let_def)
      also have "\<dots> = lower_bound cmp xs first (count div 2) v'"
        using "1.IH"(2) [OF True refl refl c] "1.prems" by simp
      also have "\<dots> = lower_bound cmp xs first count v'"
        using True c "1.prems" by (subst (2) lower_bound.simps) (simp add: Let_def)
      finally show ?thesis .
    qed
  qed
qed

lemma IsCmdBuiltin_cong:
  assumes "map towlower s = map towlower t"
  shows "IsCmdBuiltin s = IsCmdBuiltin t"
proof -
  have l: "\<And>x. (wcsicmp x s < 0) = (wcsicmp x t < 0)"
    using assms wcsicmp_cong [OF refl assms] by simp
  have r: "\<And>x. (wcsicmp s x < 0) = (wcsicmp t x < 0)"
    using assms wcsicmp_cong [OF assms refl] by simp
  have "lower_bound (\<lambda>a b. wcsicmp a b < 0) kCmdBuiltins 0 (length kCmdBuiltins) s =
        lower_bound (\<lambda>a b. wcsicmp a b < 0) kCmdBuiltins 0 (length kCmdBuiltins) t"
    by (rule lower_bound_cong) (rule l)
  then show ?thesis
    by (simp add: IsCmdBuiltin_def binary_search_def r)
qed


lemma lower_bound_sorted:
  fixes k :: "'a \<Rightarrow> 'b::linorder"
  assumes "sorted (map k xs)" and "first + count \<le> length xs"
    and "\<And>x. x \<in> set xs \<Longrightarrow> cmp x v = (k x < kv)"
  shows "first \<le> lower_bound cmp xs first count v \<and>
         lower_bound cmp xs first count v \<le> first + count \<and>
         (\<forall>i. first \<le> i \<and> i < lower_bound cmp xs first count v \<longrightarrow> k (xs ! i) < kv) \<and>
         (\<forall>i. lower_bound cmp xs first count v \<le> i \<and> i < first + count \<longrightarrow> \<not> k (xs ! i) < kv)"
  using assms
proof (induction cmp xs first count v rule: lower_bound.induct)
  case (1 cmp xs first count v)
  have mono: "\<And>i j. i \<le> j \<Longrightarrow> j < length xs \<Longrightarrow> k (xs ! i) \<le> k (xs ! j)"
    using "1.prems"(1) by (simp add: sorted_iff_nth_mono)
  show ?case
  proof (cases "0 < count")
    case False
    then show ?thesis by (auto simp: lower_bound.simps)
  next
    case True
    let ?it = "first + count div 2"
    from True "1.prems"(2) have it: "?it < length xs" by linarith
    then have mem: "xs ! ?it \<in> set xs" by simp
    show ?thesis
    proof (cases "cmp (xs ! ?it) v")
      case c: True
      let ?r = "lower_bound cmp xs (Suc ?it) (count - (count div 2 + 1)) v"
      have eq: "lower_bound cmp xs first count v = ?r"
        using True c by (subst lower_bound.simps) (simp add: Let_def)
      from True have bound: "Suc ?it + (count - (count div 2 + 1)) = first + count"
        by simp
      with "1.prems"(2) have le: "Suc ?it + (count - (count div 2 + 1)) \<le> length xs"
        by simp
      note IH = "1.IH"(1) [OF True refl refl c "1.prems"(1) le "1.prems"(3)]
      from c mem "1.prems"(3) have lt: "k (xs ! ?it) < kv" by simp
      have below: "k (xs ! i) < kv" if "first \<le> i" "i < ?r" for i
      proof (cases "i \<le> ?it")
        case True
        with mono [OF True it] lt show ?thesis by simp
      next
        case False
        with that IH show ?thesis by simp
      qed
      from IH bound below show ?thesis
        by (simp only: eq) auto
    next
      case c: False
      let ?r = "lower_bound cmp xs first (count div 2) v"
      have eq: "lower_bound cmp xs first count v = ?r"
        using True c by (subst lower_bound.simps) (simp add: Let_def)
      from "1.prems"(2) have le: "first + count div 2 \<le> length xs" by linarith
      note IH = "1.IH"(2) [OF True refl refl c "1.prems"(1) le "1.prems"(3)]
      from c mem "1.prems"(3) have nlt: "\<not> k (xs ! ?it) < kv" by simp
      have above: "\<not> k (xs ! i) < kv" if "?r \<le> i" "i < first + count" for i
      proof (cases "i < ?it")
        case True
        with that IH show ?thesis by simp
      next
        case False
        then have "?it \<le> i" by simp
        from mono [OF this] that "1.prems"(2) have "k (xs ! ?it) \<le> k (xs ! i)" by simp
        with nlt show ?thesis by auto
      qed
      from IH above show ?thesis
        by (simp only: eq) auto
    qed
  qed
qed

lemma binary_search_sorted:
  fixes k :: "'a \<Rightarrow> 'b::linorder"
  assumes "sorted (map k xs)"
    and "\<And>x. x \<in> set xs \<Longrightarrow> cmp x v = (k x < kv)"
    and "\<And>x. x \<in> set xs \<Longrightarrow> cmp v x = (kv < k x)"
  shows "binary_search cmp xs v \<longleftrightarrow> kv \<in> k ` set xs"
proof -
  let ?r = "lower_bound cmp xs 0 (length xs) v"
  have mono: "\<And>i j. i \<le> j \<Longrightarrow> j < length xs \<Longrightarrow> k (xs ! i) \<le> k (xs ! j)"
    using assms(1) by (simp add: sorted_iff_nth_mono)
  from lower_bound_sorted [of k xs 0 "length xs" cmp v kv, OF assms(1) _ assms(2)]
  have r: "?r \<le> length xs" "\<And>i. i < ?r \<Longrightarrow> k (xs ! i) < kv"
    "\<And>i. ?r \<le> i \<Longrightarrow> i < length xs \<Longrightarrow> \<not> k (xs ! i) < kv"
    by auto
  show ?thesis
  proof
    assume "binary_search cmp xs v"
    then have "?r \<noteq> length xs" "\<not> cmp v (xs ! ?r)"
      by (simp_all add: binary_search_def Let_def)
    with r(1) have lt: "?r < length xs" by simp
    with \<open>\<not> cmp v (xs ! ?r)\<close> assms(3) have "\<not> kv < k (xs ! ?r)" by simp
    moreover from r(3) [of ?r] lt have "\<not> k (xs ! ?r) < kv" by simp
    ultimately have "kv = k (xs ! ?r)" by simp
    with lt show "kv \<in> k ` set xs" by simp
  next
    assume "kv \<in> k ` set xs"
    then obtain j where j: "j < length xs" "kv = k (xs ! j)"
      by (auto simp: in_set_conv_nth)
    from r(2) [of j] j have "?r \<le> j" by (cases "j < ?r") auto
    with j have lt: "?r < length xs" by simp
    from mono [OF \<open>?r \<le> j\<close> j(1)] j(2) have "k (xs ! ?r) \<le> kv" by simp
    moreover from r(3) [of ?r] lt have "\<not> k (xs ! ?r) < kv" by simp
    ultimately have "\<not> kv < k (xs ! ?r)" by simp
    with lt assms(3) have "\<not> cmp v (xs ! ?r)" by simp
    with lt show "binary_search cmp xs v"
      by (simp add: binary_search_def Let_def)
  qed
qed


lemma towlower_eq_0: "towlower c = 0 \<longleftrightarrow> c = 0"
proof (cases "0x41 \<le> c \<and> c \<le> 0x5A")
  case True
  then have "unat c \<le> 90" by (simp add: word_le_nat_alt)
  then have "unat c + unat (0x20 :: wchar_t) < 2 ^ LENGTH(16)" by simp
  then have "unat (c + 0x20) = unat c + unat (0x20 :: wchar_t)"
    by (simp only: unat_add_lem)
  then have "unat (c + 0x20) \<noteq> 0" by simp
  then have "c + 0x20 \<noteq> 0" by auto
  moreover from True have "c \<noteq> 0" by auto
  ultimately show ?thesis using True by (simp add: towlower_def)
next
  case False
  then show ?thesis by (auto simp: towlower_def)
qed

lemma wcsicmp_less:
  "0 \<notin> set a \<Longrightarrow> 0 \<notin> set b \<Longrightarrow>
   (wcsicmp a b < 0) = (map towlower a < map towlower b)"
proof (induction a b rule: wcsicmp.induct)
  case 1
  then show ?case by simp
next
  case (2 b bs)
  then have "towlower b \<noteq> 0" by (auto simp: towlower_eq_0)
  then have "0 < uint (towlower b)" by (simp add: word_neq_0_conv word_less_def)
  then show ?case by simp
next
  case (3 a as)
  then show ?case by simp
next
  case (4 a as b bs)
  then show ?case by (auto simp: word_less_def)
qed

lemma kCmdBuiltins_sorted: "sorted (map (map towlower) kCmdBuiltins)"
  by (simp add: kCmdBuiltins_def L_def towlower_def sorted2_simps del: sorted_wrt.simps(2))

lemma kCmdBuiltins_lower: "map (map towlower) kCmdBuiltins = kCmdBuiltins"
  by (simp add: kCmdBuiltins_def L_def towlower_def)

lemma kCmdBuiltins_no_NUL: "x \<in> set kCmdBuiltins \<Longrightarrow> 0 \<notin> set x"
  by (auto simp: kCmdBuiltins_def L_def)

lemma IsCmdBuiltin_member:
  assumes "0 \<notin> set s"
  shows "IsCmdBuiltin s \<longleftrightarrow> map towlower s \<in> set kCmdBuiltins"
proof -
  have "IsCmdBuiltin s \<longleftrightarrow> map towlower s \<in> map towlower ` set kCmdBuiltins"
    unfolding IsCmdBuiltin_def
    by (rule binary_search_sorted [OF kCmdBuiltins_sorted])
      (simp_all add: wcsicmp_less assms kCmdBuiltins_no_NUL)
  also have "map towlower ` set kCmdBuiltins = set (map (map towlower) kCmdBuiltins)"
    by simp
  finally show ?thesis by (simp only: kCmdBuiltins_lower)
qed

lemma IsCmdBuiltin_CD: "IsCmdBuiltin (L ''CD'')"
proof -
  have "map towlower (L ''CD'') = map towlower (L ''cd'')"
    by (simp add: L_def towlower_def)
  from IsCmdBuiltin_cong [OF this] show ?thesis by (simp add: IsCmdBuiltin_cd)
qed

lemma IsCmdBuiltin_notepad: "\<not> IsCmdBuiltin (L ''notepad'')"
  by (simp add: IsCmdBuiltin_def binary_search_def lower_bound.simps kCmdBuiltins_def
        L_def towlower_def Let_def)

lemma towlower_upper:
  assumes "0x41 \<le> c" "c \<le> 0x5A"
  shows "towlower c = c + 0x20" "towlower (c + 0x20) = c + 0x20"
proof -
  show "towlower c = c + 0x20" using assms by (simp add: towlower_def)
  from assms have "unat c \<le> 90" by (simp add: word_le_nat_alt)
  then have "unat c + unat (0x20 :: wchar_t) < 2 ^ LENGTH(16)" by simp
  then have u: "unat (c + 0x20) = unat c + unat (0x20 :: wchar_t)"
    by (simp only: unat_add_lem)
  from assms(1) have "65 \<le> unat c" by (simp add: word_le_nat_alt)
  with u have "\<not> unat (c + 0x20) \<le> 90" by simp
  then have "\<not> c + 0x20 \<le> 0x5A" by (simp add: word_le_nat_alt)
  then show "towlower (c + 0x20) = c + 0x20" by (simp add: towlower_def)
qed

lemma towlower_case_variant:
  "c = d \<or> (0x41 \<le> c \<and> c \<le> 0x5A \<and> d = c + 0x20) \<or> (0x41 \<le> d \<and> d \<le> 0x5A \<and> c = d + 0x20)
   \<Longrightarrow> towlower c = towlower d"
  by (auto simp: towlower_upper)

lemma map_towlower_case_variant:
  "list_all2 (\<lambda>c d. c = d \<or> (0x41 \<le> c \<and> c \<le> 0x5A \<and> d = c + 0x20)
                          \<or> (0x41 \<le> d \<and> d \<le> 0x5A \<and> c = d + 0x20)) s t
   \<Longrightarrow> map towlower s = map towlower t"
proof (induction s t rule: list_all2_induct)
  case Nil
  show ?case by simp
next
  case (Cons c s d t)
  from towlower_case_variant [OF Cons.hyps(1)] Cons.IH show ?case by simp
qed

lemma case_variant_towlower:
  "list_all2 (\<lambda>c d. c = d \<or> (0x41 \<le> c \<and> c \<le> 0x5A \<and> d = c + 0x20)
                          \<or> (0x41 \<le> d \<and> d \<le> 0x5A \<and> c = d + 0x20)) s (map towlower s)"
  by (induction s) (auto simp: towlower_def)

lemma kCmdBuiltins_entry_lower: "b \<in> set kCmdBuiltins \<Longrightarrow> map towlower b = b"
proof -
  have "map (map towlower) kCmdBuiltins = map (\<lambda>b. b) kCmdBuiltins"
    by (simp add: kCmdBuiltins_lower)
  then have "\<forall>b \<in> set kCmdBuiltins. map towlower b = b"
    by (simp only: map_eq_conv)
  then show "b \<in> set kCmdBuiltins \<Longrightarrow> map towlower b = b" by simp
qed

lemma IsCmdBuiltin_case_variant_member:
  assumes "0 \<notin> set s"
  shows "IsCmdBuiltin s \<longleftrightarrow>
         (\<exists>b \<in> set kCmdBuiltins.
            list_all2 (\<lambda>c d. c = d \<or> (0x41 \<le> c \<and> c \<le> 0x5A \<and> d = c + 0x20)
                                \<or> (0x41 \<le> d \<and> d \<le> 0x5A \<and> c = d + 0x20)) s b)"
proof
  assume "IsCmdBuiltin s"
  then have "map towlower s \<in> set kCmdBuiltins"
    by (simp add: IsCmdBuiltin_member [OF assms])
  with case_variant_towlower [of s] show "\<exists>b \<in> set kCmdBuiltins.
            list_all2 (\<lambda>c d. c = d \<or> (0x41 \<le> c \<and> c \<le> 0x5A \<and> d = c + 0x20)
                                \<or> (0x41 \<le> d \<and> d \<le> 0x5A \<and> c = d + 0x20)) s b"
    by blast
next
  assume "\<exists>b \<in> set kCmdBuiltins.
            list_all2 (\<lambda>c d. c = d \<or> (0x41 \<le> c \<and> c \<le> 0x5A \<and> d = c + 0x20)
                                \<or> (0x41 \<le> d \<and> d \<le> 0x5A \<and> c = d + 0x20)) s b"
  then obtain b where b: "b \<in> set kCmdBuiltins"
    and v: "list_all2 (\<lambda>c d. c = d \<or> (0x41 \<le> c \<and> c \<le> 0x5A \<and> d = c + 0x20)
                                \<or> (0x41 \<le> d \<and> d \<le> 0x5A \<and> c = d + 0x20)) s b"
    by blast
  from map_towlower_case_variant [OF v] kCmdBuiltins_entry_lower [OF b] b
  have "map towlower s \<in> set kCmdBuiltins" by simp
  then show "IsCmdBuiltin s" by (simp add: IsCmdBuiltin_member [OF assms])
qed

lemma kCmdBuiltins_sorted_lex: "sorted kCmdBuiltins"
  by (simp add: kCmdBuiltins_def L_def sorted2_simps del: sorted_wrt.simps(2))

text \<open>
  Claim C6, as the code has it.  The comparison folds the letters \<^verbatim>\<open>A\<close> to \<^verbatim>\<open>Z\<close>
  (code units 0x41 to 0x5A) onto \<^verbatim>\<open>a\<close> to \<^verbatim>\<open>z\<close> (0x20 higher) and no other code
  unit.  Two strings of the same length that agree at every position up to the case of
  such a letter get the same answer from \<^const>\<open>IsCmdBuiltin\<close>.  For a string without the
  terminator code unit inside, the answer is whether some entry of the table
  \<^const>\<open>kCmdBuiltins\<close> agrees with it in that way; the table is sorted in the
  lexicographic order of its code units.  In particular \<^verbatim>\<open>CD\<close> and \<^verbatim>\<open>cd\<close> are
  builtins and \<^verbatim>\<open>notepad\<close> is not.
\<close>

theorem IsCmdBuiltin_case_insensitive_membership:
  "(list_all2 (\<lambda>c d. c = d \<or> (0x41 \<le> c \<and> c \<le> 0x5A \<and> d = c + 0x20)
                           \<or> (0x41 \<le> d \<and> d \<le> 0x5A \<and> c = d + 0x20)) s t
      \<longrightarrow> IsCmdBuiltin s = IsCmdBuiltin t) \<and>
   (0 \<notin> set s \<longrightarrow>
      IsCmdBuiltin s =
        (\<exists>b \<in> set kCmdBuiltins.
           list_all2 (\<lambda>c d. c = d \<or> (0x41 \<le> c \<and> c \<le> 0x5A \<and> d = c + 0x20)
                               \<or> (0x41 \<le> d \<and> d \<le> 0x5A \<and> c = d + 0x20)) s b)) \<and>
   sorted kCmdBuiltins \<and>
   IsCmdBuiltin (L ''CD'') \<and> IsCmdBuiltin (L ''cd'') \<and> \<not> IsCmdBuiltin (L ''notepad'')"
proof (intro conjI impI)
  assume "list_all2 (\<lambda>c d. c = d \<or> (0x41 \<le> c \<and> c \<le> 0x5A \<and> d = c + 0x20)
                           \<or> (0x41 \<le> d \<and> d \<le> 0x5A \<and> c = d + 0x20)) s t"
  then show "IsCmdBuiltin s = IsCmdBuiltin t"
    by (intro IsCmdBuiltin_cong map_towlower_case_variant)
next
  assume "0 \<notin> set s"
  then show "IsCmdBuiltin s =
        (\<exists>b \<in> set kCmdBuiltins.
           list_all2 (\<lambda>c d. c = d \<or> (0x41 \<le> c \<and> c \<le> 0x5A \<and> d = c + 0x20)
                               \<or> (0x41 \<le> d \<and> d \<le> 0x5A \<and> c = d + 0x20)) s b)"
    by (rule IsCmdBuiltin_case_variant_member)
qed (rule kCmdBuiltins_sorted_lex IsCmdBuiltin_CD IsCmdBuiltin_cd IsCmdBuiltin_notepad)+

theorem IsCmdBuiltin_case_insensitive_membership_witness:
  "IsCmdBuiltin (L ''ECHO'') = IsCmdBuiltin (L ''echo'') \<and> IsCmdBuiltin (L ''eChO'')"
proof -
  have a: "list_all2 (\<lambda>c d. c = d \<or> (0x41 \<le> c \<and> c \<le> 0x5A \<and> d = c + 0x20)
                           \<or> (0x41 \<le> d \<and> d \<le> 0x5A \<and> c = d + 0x20))
             (L ''ECHO'') (L ''echo'')"
    by (simp add: L_def)
  have b: "0 \<notin> set (L ''eChO'')" by (simp add: L_def)
  have c: "\<exists>b \<in> set kCmdBuiltins.
           list_all2 (\<lambda>c d. c = d \<or> (0x41 \<le> c \<and> c \<le> 0x5A \<and> d = c + 0x20)
                               \<or> (0x41 \<le> d \<and> d \<le> 0x5A \<and> c = d + 0x20)) (L ''eChO'') b"
  proof
    show "L ''echo'' \<in> set kCmdBuiltins" by (simp add: kCmdBuiltins_def)
    show "list_all2 (\<lambda>c d. c = d \<or> (0x41 \<le> c \<and> c \<le> 0x5A \<and> d = c + 0x20)
                               \<or> (0x41 \<le> d \<and> d \<le> 0x5A \<and> c = d + 0x20))
            (L ''eChO'') (L ''echo'')"
      by (simp add: L_def)
  qed
  from IsCmdBuiltin_case_insensitive_membership [of "L ''ECHO''" "L ''echo''"] a
  have 1: "IsCmdBuiltin (L ''ECHO'') = IsCmdBuiltin (L ''echo'')" by blast
  from IsCmdBuiltin_case_insensitive_membership [of "L ''eChO''" "L ''echo''"] b c
  have 2: "IsCmdBuiltin (L ''eChO'')" by blast
  from 1 2 show ?thesis by simp
qed

text \<open>
  A case variant outside those letters is not folded: U+212A KELVIN SIGN is an upper
  case form of \<^verbatim>\<open>k\<close>, and \<^verbatim>\<open>mklink\<close> written with it is not classified as the
  builtin that \<^verbatim>\<open>mklink\<close> is.
\<close>

theorem IsCmdBuiltin_case_variant_counterexample:
  "IsCmdBuiltin [0x6D, 0x6B, 0x6C, 0x69, 0x6E, 0x6B] \<and>
   \<not> IsCmdBuiltin [0x6D, 0x212A, 0x6C, 0x69, 0x6E, 0x6B]"
proof -
  have m: "L ''mklink'' = [0x6D, 0x6B, 0x6C, 0x69, 0x6E, 0x6B]" by (simp add: L_def)
  have "L ''mklink'' \<in> set kCmdBuiltins" by (simp add: kCmdBuiltins_def)
  then have 1: "IsCmdBuiltin [0x6D, 0x6B, 0x6C, 0x69, 0x6E, 0x6B]"
    using IsCmdBuiltin_member [of "[0x6D, 0x6B, 0x6C, 0x69, 0x6E, 0x6B]"]
    by (simp add: m towlower_def)
  have "map towlower [0x6D, 0x212A, 0x6C, 0x69, 0x6E, 0x6B] \<notin> set kCmdBuiltins"
    by (simp add: kCmdBuiltins_def L_def towlower_def)
  then have 2: "\<not> IsCmdBuiltin [0x6D, 0x212A, 0x6C, 0x69, 0x6E, 0x6B]"
    using IsCmdBuiltin_member [of "[0x6D, 0x212A, 0x6C, 0x69, 0x6E, 0x6B]"] by simp
  from 1 2 show ?thesis by simp
qed

subsection \<open>Splitting path names\<close>

lemma substr_Some: "pos \<le> length s \<Longrightarrow> substr s pos n = Some (take n (drop pos s))"
  by (simp add: substr_def)

lemma substr_from_Some: "pos \<le> length s \<Longrightarrow> substr_from s pos = Some (drop pos s)"
  by (simp add: substr_from_def)

lemma erase_from_Some: "pos \<le> length s \<Longrightarrow> erase_from s pos = Some (take pos s)"
  by (simp add: erase_from_def)

lemma wfind_bound: "wfind s c pos = Some k \<Longrightarrow> k < length s"
  by (auto simp: wfind_def find_Some_iff)

lemma find_last_not_of_bound: "find_last_not_of s cs = Some j \<Longrightarrow> j < length s"
proof -
  assume "find_last_not_of s cs = Some j"
  then have "j \<in> set (rev [0 ..< length s])"
    unfolding find_last_not_of_def by (metis find_Some_iff nth_mem)
  then show ?thesis by simp
qed

lemma split_at:
  "k \<le> length path \<Longrightarrow>
   (do { d \<leftarrow> substr path 0 k; p \<leftarrow> substr_from path k; Some (d, p) }) =
     Some (take k path, drop k path)"
  by (simp add: substr_Some substr_from_Some)

lemma SplitDrive_take_drop:
  "\<exists>k. k \<le> length path \<and> SplitDrive path = Some (take k path, drop k path)"
proof -
  have none: ?thesis if "SplitDrive path = Some ([], path)"
    using that by (intro exI [of _ 0]) simp
  have at: ?thesis if "k \<le> length path" "SplitDrive path = Some (take k path, drop k path)" for k
    using that by blast
  show ?thesis
  proof (cases "length path \<ge> 2")
    case False
    then show ?thesis by (intro none) (simp add: SplitDrive_def)
  next
    case True
    define normp where "normp = map (\<lambda>ch. if ch = kSlash then kBackslash else ch) path"
    have len: "length normp = length path" by (simp add: normp_def)
    have s2: "substr normp 0 2 = Some (take 2 normp)"
      by (simp add: substr_Some)
    have s3: "substr normp 2 (Suc 0) = Some (take 1 (drop 2 normp))"
      using True len by (simp add: substr_Some)
    define unc where
      "unc \<longleftrightarrow> take 2 normp = [kBackslash, kBackslash] \<and> take 1 (drop 2 normp) \<noteq> [kBackslash]"
    have eq: "SplitDrive path =
        (if unc then
           (case wfind normp kBackslash 2 of
              None \<Rightarrow> Some ([], path)
            | Some index \<Rightarrow>
                (let index2 = wfind normp kBackslash (index + 1) in
                 if index2 = Some (index + 1) then Some ([], path)
                 else
                   (let index2 = (case index2 of None \<Rightarrow> length path | Some k \<Rightarrow> k) in
                    do {
                      d \<leftarrow> substr path 0 index2;
                      p \<leftarrow> substr_from path index2;
                      Some (d, p)
                    })))
         else if normp ! 1 = kColon then
           do { d \<leftarrow> substr path 0 2; p \<leftarrow> substr_from path 2; Some (d, p) }
         else Some ([], path))"
      using True by (simp add: SplitDrive_def normp_def [symmetric] s2 s3 unc_def)
    show ?thesis
    proof (cases unc)
      case False
      show ?thesis
      proof (cases "normp ! 1 = kColon")
        case c: True
        with eq False True show ?thesis by (intro at [of 2]) (simp_all add: split_at)
      next
        case c: False
        with eq False show ?thesis by (intro none) simp
      qed
    next
      case unc: True
      show ?thesis
      proof (cases "wfind normp kBackslash 2")
        case None
        with eq unc show ?thesis by (intro none) simp
      next
        case (Some index)
        show ?thesis
        proof (cases "wfind normp kBackslash (index + 1)")
          case None
          with eq unc Some show ?thesis
            by (intro at [of "length path"]) (simp_all add: split_at)
        next
          case i2: (Some index2)
          from wfind_bound [OF i2] len have le: "index2 \<le> length path" by simp
          show ?thesis
          proof (cases "index2 = index + 1")
            case True
            with eq unc Some i2 show ?thesis by (intro none) simp
          next
            case False
            with eq unc Some i2 le show ?thesis
              by (intro at [of index2]) (simp_all add: split_at)
          qed
        qed
      qed
    qed
  qed
qed

text \<open>
  Claim C9.  \<^const>\<open>SplitDrive\<close> returns for every path (no \<^verbatim>\<open>substr\<close> throws), and the
  two components it returns, put together, are the path itself, forward slashes
  included.
\<close>

theorem SplitDrive_concat:
  "\<exists>d p. SplitDrive path = Some (d, p) \<and> d @ p = path"
proof -
  from SplitDrive_take_drop obtain k
    where "SplitDrive path = Some (take k path, drop k path)" by blast
  moreover have "take k path @ drop k path = path" by simp
  ultimately show ?thesis by blast
qed

theorem SplitDrive_concat_witness:
  "SplitDrive (L ''//host/share/dir/a.txt'') = Some (L ''//host/share'', L ''/dir/a.txt'') \<and>
   L ''//host/share'' @ L ''/dir/a.txt'' = L ''//host/share/dir/a.txt''"
proof -
  have "SplitDrive (L ''//host/share/dir/a.txt'') = Some (L ''//host/share'', L ''/dir/a.txt'')"
    by (simp add: SplitDrive_def L_def substr_def substr_from_def wfind_def upt_rec)
  with SplitDrive_concat [of "L ''//host/share/dir/a.txt''"] show ?thesis
    by auto
qed


lemma SplitPath_loop_le: "SplitPath_loop p n \<le> n"
  by (induction n) simp_all

lemma SplitPath_loop_no_sep:
  "SplitPath_loop p n \<le> j \<Longrightarrow> j < n \<Longrightarrow> p ! j \<noteq> sep \<and> p ! j \<noteq> altsep"
proof (induction n)
  case 0
  then show ?case by simp
next
  case (Suc n)
  show ?case
  proof (cases "p ! n \<noteq> sep \<and> p ! n \<noteq> altsep")
    case True
    with Suc show ?thesis by (cases "j = n") auto
  next
    case False
    with Suc.prems show ?thesis by auto
  qed
qed

lemma SplitPath_loop_at_sep:
  "SplitPath_loop p n = Suc k \<Longrightarrow> p ! k = sep \<or> p ! k = altsep"
  by (induction n) (auto split: if_splits)

lemma drop_SplitPath_loop_no_sep:
  "sep \<notin> set (drop (SplitPath_loop p (length p)) p) \<and>
   altsep \<notin> set (drop (SplitPath_loop p (length p)) p)"
proof -
  have "c \<noteq> sep \<and> c \<noteq> altsep" if "c \<in> set (drop (SplitPath_loop p (length p)) p)" for c
  proof -
    from that obtain j where "j < length p - SplitPath_loop p (length p)"
      and c: "c = drop (SplitPath_loop p (length p)) p ! j"
      by (auto simp: in_set_conv_nth)
    then have "SplitPath_loop p (length p) + j < length p" by simp
    from SplitPath_loop_no_sep [of p "length p" "SplitPath_loop p (length p) + j", OF _ this] c
    show ?thesis by (simp add: nth_drop SplitPath_loop_le)
  qed
  then show ?thesis by blast
qed

lemma take_SplitPath_loop_last:
  "take (SplitPath_loop p (length p)) p = [] \<or>
   last (take (SplitPath_loop p (length p)) p) = sep \<or>
   last (take (SplitPath_loop p (length p)) p) = altsep"
proof (cases "SplitPath_loop p (length p)")
  case 0
  then show ?thesis by simp
next
  case (Suc k)
  from SplitPath_loop_le [of p "length p"] Suc have k: "k < length p" by simp
  then have "last (take (Suc k) p) = p ! k"
    by (simp add: take_Suc_conv_app_nth)
  with SplitPath_loop_at_sep [OF Suc] Suc show ?thesis by simp
qed

text \<open>
  Claim C10.  \<^const>\<open>SplitPath\<close> returns for every path, and the tail it returns holds
  neither a backslash nor a forward slash.  The tail is the end of the part \<open>p\<close> that
  \<^const>\<open>SplitDrive\<close> leaves after the drive, and what precedes it in \<open>p\<close> is empty or
  ends in a separator: the split point lies just beyond the last separator of \<open>p\<close>.
\<close>

theorem SplitPath_tail_no_separator:
  "\<exists>h t d p q. SplitPath path = Some (h, t) \<and> sep \<notin> set t \<and> altsep \<notin> set t \<and>
     SplitDrive path = Some (d, p) \<and> p = q @ t \<and>
     (q = [] \<or> last q = sep \<or> last q = altsep)"
proof -
  obtain d p where dp: "SplitDrive path = Some (d, p)"
    using SplitDrive_take_drop by blast
  let ?i = "SplitPath_loop p (length p)"
  have i: "?i \<le> length p" by (rule SplitPath_loop_le)
  obtain head where head:
    "(case find_last_not_of (take ?i p) [altsep, sep] of
        None \<Rightarrow> Some (take ?i p)
      | Some j \<Rightarrow> erase_from (take ?i p) (j + 1)) = Some head"
  proof (cases "find_last_not_of (take ?i p) [altsep, sep]")
    case None
    then show ?thesis using that by simp
  next
    case (Some j)
    from find_last_not_of_bound [OF Some] have "j + 1 \<le> length (take ?i p)" by simp
    from erase_from_Some [OF this] Some show ?thesis using that by simp
  qed
  have "SplitPath path = Some (d @ head, drop ?i p)"
    using i head by (simp add: SplitPath_def dp substr_Some substr_from_Some)
  moreover have "p = take ?i p @ drop ?i p" by simp
  ultimately show ?thesis
    using drop_SplitPath_loop_no_sep [of p] take_SplitPath_loop_last [of p] dp by blast
qed

theorem SplitPath_tail_no_separator_witness:
  "SplitPath (L ''c:/dir/a.txt'') = Some (L ''c:/dir'', L ''a.txt'') \<and>
   sep \<notin> set (L ''a.txt'') \<and> altsep \<notin> set (L ''a.txt'')"
proof -
  have d: "SplitDrive (L ''c:/dir/a.txt'') = Some (L ''c:'', L ''/dir/a.txt'')"
    by (simp add: SplitDrive_def L_def substr_def substr_from_def)
  have "SplitPath (L ''c:/dir/a.txt'') = Some (L ''c:/dir'', L ''a.txt'')"
    by (simp add: SplitPath_def d)
      (simp add: L_def substr_def substr_from_def erase_from_def find_last_not_of_def
         upt_rec)
  with SplitPath_tail_no_separator [of "L ''c:/dir/a.txt''"] show ?thesis
    by auto
qed

end
